theory Spec2Isabelle
  imports Complex_Main "HOL-Library.Word" "HOL-Library.Multiset"
begin

section \<open>Centerlines and their splitting at branch points\<close>

text \<open>
  \<^verbatim>\<open>CenterlineSet::CenterLineNode\<close> (centerline_set.h): a point of the graph
  together with the distance annotated by the routing algorithm.
\<close>

datatype ('p, 'd) CenterLineNode = CenterLineNode (Point: 'p) (Distance: 'd)

text \<open>
  \<^verbatim>\<open>Centerline::split\<close> (centerline.h).  The centerline is its vector
  \<^verbatim>\<open>nodes_\<close>.  The result is the pair (remaining \<^verbatim>\<open>nodes_\<close>, new
  centerline).  The comparison \<^verbatim>\<open>index == GetNumPoints() - 1\<close> is done on
  \<^verbatim>\<open>size_t\<close>; for an empty vector the right-hand side is the largest
  \<^verbatim>\<open>size_t\<close>, which no index reaches, hence the comparison on \<open>int\<close>.
  For \<open>index \<ge> size\<close> the iterator \<^verbatim>\<open>nodes_.begin() + index\<close> is past the
  end and the behaviour is undefined: \<open>None\<close>.
\<close>

definition Centerline_split :: "'n list \<Rightarrow> nat \<Rightarrow> ('n list \<times> 'n list) option" where
  "Centerline_split nodes index =
     (if index = 0 \<or> int index = int (length nodes) - 1 then Some (nodes, [])
      else if index < length nodes then Some (take (index + 1) nodes, drop index nodes)
      else None)"

text \<open>
  The state of a \<^verbatim>\<open>CenterlineSet\<close>.  The statistics are computed in floating
  point from a centerline; their constructor is a parameter \<open>stat\<close> of the operations below.
\<close>

record ('p, 'd, 's) CenterlineSet =
  paths :: "('p, 'd) CenterLineNode list list"
  statistics :: "'s list"
  used_nodes :: "'p set"
  branch_nodes :: "'p set"

definition IsBranch :: "('p, 'd, 's) CenterlineSet \<Rightarrow> 'p \<Rightarrow> bool" where
  "IsBranch s point = (point \<in> branch_nodes s)"

text \<open>
  The inner loop of \<^verbatim>\<open>SplitByBranchPoints\<close> over the positions \<open>i\<close> of one path:
  at a branch point the path is split; the loop is left (\<^verbatim>\<open>break\<close>) only when the
  new centerline has nodes.  A split that returns an empty centerline leaves the path as
  it is, so the remaining positions are those of the same path.  Results: \<open>None\<close> for
  undefined behaviour, \<open>Some None\<close> when the loop ends without a split, and
  \<open>Some (Some (path', new_path))\<close> at the \<^verbatim>\<open>break\<close>.
\<close>

fun scan_path :: "'p set \<Rightarrow> ('p, 'd) CenterLineNode list \<Rightarrow> nat list
    \<Rightarrow> (('p, 'd) CenterLineNode list \<times> ('p, 'd) CenterLineNode list) option option" where
  "scan_path B path [] = Some None"
| "scan_path B path (i # is) =
     (if Point (path ! i) \<in> B then
        (case Centerline_split path i of
           None \<Rightarrow> None
         | Some (path', new_path) \<Rightarrow>
             if length new_path > 0 then Some (Some (path', new_path))
             else scan_path B path is)
      else scan_path B path is)"

text \<open>
  The outer loop of \<^verbatim>\<open>SplitByBranchPoints\<close>: \<open>j\<close> runs over \<^verbatim>\<open>paths_\<close>, whose
  size is read again at every iteration, so centerlines appended by a split are visited
  later in the same loop.
\<close>

function split_loop :: "'p set \<Rightarrow> nat \<Rightarrow> ('p, 'd) CenterLineNode list list
    \<Rightarrow> ('p, 'd) CenterLineNode list list option" where
  "split_loop B j ps =
     (if j \<ge> length ps then Some ps
      else (case scan_path B (ps ! j) [0..<length (ps ! j)] of
              None \<Rightarrow> None
            | Some None \<Rightarrow> split_loop B (j + 1) ps
            | Some (Some (path', new_path)) \<Rightarrow>
                split_loop B (j + 1) (ps[j := path'] @ [new_path])))"
  by pat_completeness auto
termination
proof (relation "measure (\<lambda>(B, j, ps). sum_list (map (\<lambda>p. length p + 1) (drop j ps)))", goal_cases)
  case 1
  then show ?case by simp
next
  case (2 B j ps x2)
  then have "j < length ps" by simp
  then have "drop j ps = ps ! j # drop (Suc j) ps" by (simp add: Cons_nth_drop_Suc)
  then show ?case by simp
next
  case (3 B j ps x2 x2a x y)
  then have j: "j < length ps" by simp
  then have d: "drop j ps = ps ! j # drop (Suc j) ps" by (simp add: Cons_nth_drop_Suc)
  have shorter: "scan_path B (ps ! j) is = Some (Some (x, y)) \<Longrightarrow> length y < length (ps ! j)" for "is"
    by (induction "is") (auto simp: Centerline_split_def split: if_splits option.splits)
  from 3 have "length y < length (ps ! j)" by (auto dest: shorter)
  with j d show ?case by simp
qed

declare split_loop.simps [simp del]

text \<open>
  \<^verbatim>\<open>CenterlineSet::SplitByBranchPoints\<close>: the statistics are cleared, the paths are
  split, and one statistics entry per resulting path is pushed.
\<close>

definition SplitByBranchPoints ::
  "(('p, 'd) CenterLineNode list \<Rightarrow> 's) \<Rightarrow> ('p, 'd, 's) CenterlineSet
     \<Rightarrow> ('p, 'd, 's) CenterlineSet option" where
  "SplitByBranchPoints stat s =
     (case split_loop (branch_nodes s) 0 (paths s) of
        None \<Rightarrow> None
      | Some ps \<Rightarrow> Some (s\<lparr>paths := ps, statistics := map stat ps\<rparr>))"

text \<open>No position strictly between the first and the last node holds a branch point.\<close>

definition no_internal_branch :: "'p set \<Rightarrow> ('p, 'd) CenterLineNode list \<Rightarrow> bool" where
  "no_internal_branch B c = (\<forall>i. 0 < i \<and> i < length c - 1 \<longrightarrow> Point (c ! i) \<notin> B)"


section \<open>Voxels, annotations and the ternary image\<close>

text \<open>
  Failures of the C++ code: \<^verbatim>\<open>throw std::exception{}\<close>, the
  \<^verbatim>\<open>std::out_of_range\<close> thrown by \<^verbatim>\<open>at\<close>, undefined behaviour (an
  unchecked access outside a vector), the \<^verbatim>\<open>std::logic_error\<close> of an Armadillo bounds
  check, and a failed \<^verbatim>\<open>assert\<close>.
\<close>

datatype failure = StdException | OutOfRange | UndefinedBehaviour | LogicError | AssertionFailure

text \<open>
  \<^verbatim>\<open>Voxel = Point<3>\<close> (point.h, voxel.h): three \<^verbatim>\<open>uint16_t\<close> coordinates.
\<close>

type_synonym Voxel = "16 word \<times> 16 word \<times> 16 word"

fun GetCoordinate :: "Voxel \<Rightarrow> nat \<Rightarrow> 16 word" where
  "GetCoordinate (x, y, z) index = (if index = 0 then x else if index = 1 then y else z)"

text \<open>
  \<^verbatim>\<open>Annotation<Voxel>\<close> (annotation.h).  \<^verbatim>\<open>distance\<close>, the labels and the tag
  are \<^verbatim>\<open>uint32_t\<close>; the displacements are \<^verbatim>\<open>int32_t\<close>, kept as their two's
  complement bit patterns (\<open>sint\<close> reads the signed value).
\<close>

datatype AnnotationStatus = initial | inserted | removed

record Annotation =
  distance :: "32 word"
  displacements :: "32 word list"
  contour_label :: "32 word"
  pixel_label :: "32 word"
  tag :: "32 word"
  status :: AnnotationStatus
  point :: Voxel

text \<open>The default constructor: distance and displacements are \<^verbatim>\<open>INT32_MAX\<close>.\<close>

definition default_Annotation :: Annotation where
  "default_Annotation =
     \<lparr>distance = 2147483647, displacements = [2147483647, 2147483647, 2147483647],
      contour_label = 0, pixel_label = 0, tag = 0, status = initial, point = (0, 0, 0)\<rparr>"

text \<open>
  \<^verbatim>\<open>AnnotatedImage\<close> (annotated_image.h) is an \<^verbatim>\<open>unordered_map\<close> from voxels to
  annotations.  It is kept as the list of its entries, in the order in which the map
  iterates over them (an order the C++ standard leaves open); keys are not repeated.
\<close>

type_synonym AnnotatedImage = "(Voxel \<times> Annotation) list"

definition HasAnnotation :: "AnnotatedImage \<Rightarrow> Voxel \<Rightarrow> bool" where
  "HasAnnotation img p = (map_of img p \<noteq> None)"

definition ReadAnnotation :: "AnnotatedImage \<Rightarrow> Voxel \<Rightarrow> failure + Annotation" where
  "ReadAnnotation img p = (case map_of img p of None \<Rightarrow> Inl OutOfRange | Some a \<Rightarrow> Inr a)"

text \<open>
  \<^verbatim>\<open>TernaryImage<Voxel>\<close> (ternary_image.h): a cube of bytes (0 pore, 1 contour,
  other values solid bulk) and the three sizes, which are \<^verbatim>\<open>uint16_t\<close>.  The cube is
  read only after \<^verbatim>\<open>IsOffLimitsPoint\<close> has answered false.
\<close>

record TernaryImage =
  points :: "nat \<Rightarrow> nat \<Rightarrow> nat \<Rightarrow> 8 word"
  sizes :: "16 word list"

text \<open>
  \<^verbatim>\<open>IsOffLimitsPoint\<close> also tests \<^verbatim>\<open>coordinate < 0\<close>, which is never true of an
  unsigned coordinate.
\<close>

definition IsOffLimitsPoint :: "TernaryImage \<Rightarrow> Voxel \<Rightarrow> bool" where
  "IsOffLimitsPoint img p = (\<exists>i \<in> {0, 1, 2}. GetCoordinate p i \<ge> sizes img ! i)"

definition IsObjectPoint :: "TernaryImage \<Rightarrow> Voxel \<Rightarrow> bool" where
  "IsObjectPoint img p =
     (if IsOffLimitsPoint img p then False
      else points img (unat (GetCoordinate p 0)) (unat (GetCoordinate p 1))
             (unat (GetCoordinate p 2)) = 0)"

definition IsContourPoint :: "TernaryImage \<Rightarrow> Voxel \<Rightarrow> bool" where
  "IsContourPoint img p =
     (if IsOffLimitsPoint img p then False
      else points img (unat (GetCoordinate p 0)) (unat (GetCoordinate p 1))
             (unat (GetCoordinate p 2)) = 1)"

text \<open>
  \<^verbatim>\<open>ConvertToLinearIndex\<close> and \<^verbatim>\<open>GetTotalSize\<close>, computed on
  \<^verbatim>\<open>size_t\<close>: with 16-bit factors the products stay below \<open>2 ^ 48\<close>.
\<close>

definition ConvertToLinearIndex :: "TernaryImage \<Rightarrow> Voxel \<Rightarrow> nat" where
  "ConvertToLinearIndex img p =
     unat (GetCoordinate p 0)
       + unat (sizes img ! 0) * unat (GetCoordinate p 1)
       + unat (sizes img ! 0) * unat (sizes img ! 1) * unat (GetCoordinate p 2)"

definition GetTotalSize :: "TernaryImage \<Rightarrow> nat" where
  "GetTotalSize img = unat (sizes img ! 0) * unat (sizes img ! 1) * unat (sizes img ! 2)"

section \<open>The two graph flavours and their builders\<close>

text \<open>
  \<^verbatim>\<open>Vertex<Voxel, double>\<close> (vertex.h): a point and its property value.  The
  property is a \<^verbatim>\<open>double\<close> obtained by converting a \<^verbatim>\<open>uint32_t\<close>, which is
  exact, hence a real number here.
\<close>

datatype Vertex = Vertex (vPoint: Voxel) (PropertyValue: real)

text \<open>
  \<^verbatim>\<open>AnnotatedVertexHelper::Annotation\<close> (annotated_vertex_helper.h), the annotation a
  graph keeps per vertex.  The default constructor gives the largest \<^verbatim>\<open>double\<close> as
  distance and the largest \<^verbatim>\<open>uint64_t\<close> as counter.
\<close>

record VertexAnnotation =
  vdistance :: real
  predecessor :: Vertex
  counter_value :: "64 word"
  vtag :: "nat option"
  has_predecessor :: bool
  is_removed :: bool
  is_local_maximal_set :: bool
  is_local_maximal :: bool
  cluster_id :: int

definition max_distance_value :: real where
  "max_distance_value = (2 - 1 / 2 ^ 52) * 2 ^ 1023"

definition default_VertexAnnotation :: VertexAnnotation where
  "default_VertexAnnotation =
     \<lparr>vdistance = max_distance_value, predecessor = Vertex (0, 0, 0) 0,
      counter_value = - 1, vtag = None, has_predecessor = False, is_removed = False,
      is_local_maximal_set = False, is_local_maximal = False, cluster_id = - 1\<rparr>"

text \<open>
  \<^verbatim>\<open>MemoryGraph\<close> (memory_graph.h): an \<^verbatim>\<open>unordered_map\<close> whose keys are
  vertices, hashed and compared by their point only.  It is the map from a point to the
  stored key and annotation.
\<close>

type_synonym MemoryGraph = "Voxel \<Rightarrow> (Vertex \<times> VertexAnnotation) option"

text \<open>
  \<^verbatim>\<open>MemoryGraph::operator[]\<close> is \<^verbatim>\<open>vertex_set_.at(vertex_key)\<close>.  The graph
  is returned with the result: a lookup leaves it as it was.
\<close>

definition MemoryGraph_get ::
  "MemoryGraph \<Rightarrow> Vertex \<Rightarrow> (failure + VertexAnnotation) \<times> MemoryGraph" where
  "MemoryGraph_get g vertex_key =
     (case g (vPoint vertex_key) of
        None \<Rightarrow> (Inl OutOfRange, g)
      | Some (k, a) \<Rightarrow> (Inr a, g))"

definition MemoryGraph_HasVertex :: "MemoryGraph \<Rightarrow> Vertex \<Rightarrow> bool" where
  "MemoryGraph_HasVertex g vertex_key = (g (vPoint vertex_key) \<noteq> None)"

text \<open>
  \<^verbatim>\<open>MemoryGraphBuilder::Build\<close>: every entry of the annotated image whose point is
  an object point of the original image is inserted with its distance, converted to a
  \<^verbatim>\<open>double\<close>, as property value.  \<^verbatim>\<open>unordered_map::insert\<close> keeps an entry
  already present.
\<close>

fun MemoryGraph_Build_loop :: "TernaryImage \<Rightarrow> AnnotatedImage \<Rightarrow> MemoryGraph \<Rightarrow> MemoryGraph" where
  "MemoryGraph_Build_loop original [] vertex_set = vertex_set"
| "MemoryGraph_Build_loop original ((p, a) # rest) vertex_set =
     (if \<not> IsObjectPoint original p then MemoryGraph_Build_loop original rest vertex_set
      else MemoryGraph_Build_loop original rest
             (if vertex_set p = None
              then vertex_set(p \<mapsto> (Vertex p (real (unat (distance a))), default_VertexAnnotation))
              else vertex_set))"

definition MemoryGraph_Build :: "AnnotatedImage \<Rightarrow> TernaryImage \<Rightarrow> MemoryGraph" where
  "MemoryGraph_Build img original = MemoryGraph_Build_loop original img Map.empty"

text \<open>
  \<^verbatim>\<open>SpeedGraph\<close> (speed_graph.h): a vector of (key, annotation) pairs indexed by the
  linear index of the point, a vector of presence flags, and the converter, which is
  \<^verbatim>\<open>ConvertToLinearIndex\<close> of the original image.
\<close>

record SpeedGraph =
  vertex_set :: "(Vertex \<times> VertexAnnotation) list"
  has_annotation_list :: "bool list"
  convert_image :: TernaryImage

definition convert_key :: "SpeedGraph \<Rightarrow> Vertex \<Rightarrow> nat" where
  "convert_key g vertex_key = ConvertToLinearIndex (convert_image g) (vPoint vertex_key)"

text \<open>
  \<^verbatim>\<open>SpeedGraph::operator[]\<close>: the flag is read with the unchecked
  \<^verbatim>\<open>has_annotation_list_[index]\<close>, undefined outside the vector; an unset flag
  throws \<^verbatim>\<open>std::out_of_range\<close>; the annotation is read with \<^verbatim>\<open>at\<close>.
\<close>

definition SpeedGraph_get ::
  "SpeedGraph \<Rightarrow> Vertex \<Rightarrow> (failure + VertexAnnotation) \<times> SpeedGraph" where
  "SpeedGraph_get g vertex_key =
     (let index = convert_key g vertex_key in
      if index \<ge> length (has_annotation_list g) then (Inl UndefinedBehaviour, g)
      else if \<not> has_annotation_list g ! index then (Inl OutOfRange, g)
      else if index \<ge> length (vertex_set g) then (Inl OutOfRange, g)
      else (Inr (snd (vertex_set g ! index)), g))"

text \<open>
  \<^verbatim>\<open>SpeedGraph::HasVertex\<close> reads the flag with \<^verbatim>\<open>at\<close>, which throws outside
  the vector (the method is \<^verbatim>\<open>noexcept\<close>, so the program is terminated).
\<close>

definition SpeedGraph_HasVertex :: "SpeedGraph \<Rightarrow> Vertex \<Rightarrow> failure + bool" where
  "SpeedGraph_HasVertex g vertex_key =
     (let index = convert_key g vertex_key in
      if index \<ge> length (has_annotation_list g) then Inl OutOfRange
      else Inr (has_annotation_list g ! index))"

text \<open>
  \<^verbatim>\<open>SpeedGraphBuilder::Build\<close>: both vectors have one slot per voxel of the
  original image; the slot of every annotated object point receives the vertex, with the
  distance converted to a \<^verbatim>\<open>double\<close> as property value, and its flag is set.
\<close>

fun SpeedGraph_Build_loop ::
  "TernaryImage \<Rightarrow> AnnotatedImage \<Rightarrow> (Vertex \<times> VertexAnnotation) list \<times> bool list
     \<Rightarrow> failure + (Vertex \<times> VertexAnnotation) list \<times> bool list" where
  "SpeedGraph_Build_loop original [] st = Inr st"
| "SpeedGraph_Build_loop original ((p, a) # rest) (vs, flags) =
     (let index = ConvertToLinearIndex original p in
      if \<not> IsObjectPoint original p then SpeedGraph_Build_loop original rest (vs, flags)
      else if index \<ge> length vs \<or> index \<ge> length flags then Inl OutOfRange
      else SpeedGraph_Build_loop original rest
             (vs[index := (Vertex p (real (unat (distance a))), default_VertexAnnotation)],
              flags[index := True]))"

definition SpeedGraph_Build :: "AnnotatedImage \<Rightarrow> TernaryImage \<Rightarrow> failure + SpeedGraph" where
  "SpeedGraph_Build img original_image =
     (case SpeedGraph_Build_loop original_image img
             (replicate (GetTotalSize original_image) (Vertex (0, 0, 0) 0, default_VertexAnnotation),
              replicate (GetTotalSize original_image) False) of
        Inl e \<Rightarrow> Inl e
      | Inr (vs, flags) \<Rightarrow>
          Inr \<lparr>vertex_set = vs, has_annotation_list = flags, convert_image = original_image\<rparr>)"


section \<open>The handle-based binary heap\<close>

text \<open>
  \<^verbatim>\<open>HandleBasedBinaryHeap<TKey, TKeyComparer>\<close> (handle_based_binary_heap.h).
  The class is a template: the key type \<open>'k\<close> is arbitrary, the comparer's
  \<^verbatim>\<open>IsLess\<close> is the parameter \<open>IsLess\<close> and the default-constructed key is the
  parameter \<open>maximum_key\<close>.

  A \<^verbatim>\<open>Handle\<close> holds a priority and the index of its slot.  The vector
  \<^verbatim>\<open>elements_\<close> holds pointers to handles; \<open>handles\<close> is the memory in which the
  handles live (\<open>None\<close>: not allocated, or deleted), and \<open>next_handle\<close> the address
  the next \<^verbatim>\<open>new\<close> returns.
\<close>

record 'k Handle =
  Priority :: 'k
  Index :: nat

record 'k HandleBasedBinaryHeap =
  elements :: "nat list"
  handles :: "nat \<Rightarrow> 'k Handle option"
  next_handle :: nat
  decreaseCounter :: int
  removeCounter :: int

definition empty_heap :: "'k HandleBasedBinaryHeap" where
  "empty_heap = \<lparr>elements = [], handles = (\<lambda>p. None), next_handle = 0,
                 decreaseCounter = 0, removeCounter = 0\<rparr>"

text \<open>
  \<^verbatim>\<open>Parent\<close> is computed on \<^verbatim>\<open>size_t\<close> and called with a positive index only.
\<close>

definition Parent :: "nat \<Rightarrow> nat" where
  "Parent index = (index - 1) div 2"

definition Left :: "nat \<Rightarrow> nat" where
  "Left index = 1 + index * 2"

definition Right :: "nat \<Rightarrow> nat" where
  "Right index = 2 + index * 2"

definition HeapSize :: "'k HandleBasedBinaryHeap \<Rightarrow> nat" where
  "HeapSize h = length (elements h)"

definition IsValid :: "'k HandleBasedBinaryHeap \<Rightarrow> nat \<Rightarrow> bool" where
  "IsValid h index = (index < HeapSize h)"

text \<open>\<^verbatim>\<open>elements_.at(i)\<close> throws outside the vector.\<close>

definition elements_at :: "'k HandleBasedBinaryHeap \<Rightarrow> nat \<Rightarrow> failure + nat" where
  "elements_at h i = (if i < length (elements h) then Inr (elements h ! i) else Inl OutOfRange)"

text \<open>Dereferencing a handle pointer; a deleted handle is undefined behaviour.\<close>

definition deref :: "'k HandleBasedBinaryHeap \<Rightarrow> nat \<Rightarrow> failure + 'k Handle" where
  "deref h p = (case handles h p of None \<Rightarrow> Inl UndefinedBehaviour | Some x \<Rightarrow> Inr x)"

definition SetIndex :: "'k HandleBasedBinaryHeap \<Rightarrow> nat \<Rightarrow> nat \<Rightarrow> failure + 'k HandleBasedBinaryHeap" where
  "SetIndex h p i =
     (case handles h p of
        None \<Rightarrow> Inl UndefinedBehaviour
      | Some x \<Rightarrow> Inr (h\<lparr>handles := (handles h)(p \<mapsto> x\<lparr>Index := i\<rparr>)\<rparr>))"

text \<open>
  \<^verbatim>\<open>IsLess(elements_.at(i), elements_.at(j))\<close>: both slots are read with
  \<^verbatim>\<open>at\<close>, then the priorities behind the two pointers are compared.
\<close>

definition IsLess_at ::
  "('k \<Rightarrow> 'k \<Rightarrow> bool) \<Rightarrow> 'k HandleBasedBinaryHeap \<Rightarrow> nat \<Rightarrow> nat \<Rightarrow> failure + bool" where
  "IsLess_at IsLess h i j =
     (case elements_at h i of Inl e \<Rightarrow> Inl e | Inr left \<Rightarrow>
      case elements_at h j of Inl e \<Rightarrow> Inl e | Inr right \<Rightarrow>
      case deref h left of Inl e \<Rightarrow> Inl e | Inr l \<Rightarrow>
      case deref h right of Inl e \<Rightarrow> Inl e | Inr r \<Rightarrow>
        Inr (IsLess (Priority l) (Priority r)))"

text \<open>
  \<^verbatim>\<open>Swap\<close>: the two pointers change slots, then each handle is told its new
  index.
\<close>

definition Swap ::
  "'k HandleBasedBinaryHeap \<Rightarrow> nat \<Rightarrow> nat \<Rightarrow> failure + 'k HandleBasedBinaryHeap" where
  "Swap h index1 index2 =
     (case elements_at h index2 of Inl e \<Rightarrow> Inl e | Inr copy_of_2 \<Rightarrow>
      case elements_at h index1 of Inl e \<Rightarrow> Inl e | Inr copy_of_1 \<Rightarrow>
        (let h1 = h\<lparr>elements := ((elements h)[index2 := copy_of_1])[index1 := copy_of_2]\<rparr> in
         case SetIndex h1 (elements h1 ! index1) index1 of Inl e \<Rightarrow> Inl e | Inr h2 \<Rightarrow>
           SetIndex h2 (elements h2 ! index2) index2))"

function MinHeapify ::
  "('k \<Rightarrow> 'k \<Rightarrow> bool) \<Rightarrow> 'k HandleBasedBinaryHeap \<Rightarrow> nat \<Rightarrow> failure + 'k HandleBasedBinaryHeap" where
  "MinHeapify IsLess h index =
     (case (if IsValid h (Left index) then IsLess_at IsLess h (Left index) index else Inr False) of
        Inl e \<Rightarrow> Inl e
      | Inr left_is_less \<Rightarrow>
          (case (if IsValid h (Right index)
                 then IsLess_at IsLess h (Right index) (if left_is_less then Left index else index)
                 else Inr False) of
             Inl e \<Rightarrow> Inl e
           | Inr right_is_less \<Rightarrow>
               (let smallest = (if right_is_less then Right index
                                else if left_is_less then Left index else index) in
                if smallest \<noteq> index then
                  (case Swap h index smallest of
                     Inl e \<Rightarrow> Inl e
                   | Inr h' \<Rightarrow> MinHeapify IsLess h' smallest)
                else Inr h)))"
  by pat_completeness auto
termination
proof (relation "measure (\<lambda>(IsLess, h, index). length (elements h) - index)", goal_cases)
  case 1
  then show ?case by simp
next
  case (2 IsLess h index left_is_less right_is_less smallest h')
  have len: "length (elements h') = length (elements h)"
    using 2(5)
    by (auto simp: Swap_def SetIndex_def elements_at_def Let_def
             split: if_splits option.splits sum.splits)
  have valid: "smallest < length (elements h)" "index < smallest"
    using 2(1,2,3,4)
    by (auto simp: IsValid_def HeapSize_def Left_def Right_def split: if_splits)
  with len show ?case by simp
qed

declare MinHeapify.simps [simp del]

text \<open>The loop of \<^verbatim>\<open>DecreasePriority\<close> that moves the entry towards the root.\<close>

function move_up ::
  "('k \<Rightarrow> 'k \<Rightarrow> bool) \<Rightarrow> 'k HandleBasedBinaryHeap \<Rightarrow> nat \<Rightarrow> failure + 'k HandleBasedBinaryHeap" where
  "move_up IsLess h index =
     (if index > 0 then
        (case IsLess_at IsLess h index (Parent index) of
           Inl e \<Rightarrow> Inl e
         | Inr is_less \<Rightarrow>
             if is_less then
               (case Swap h index (Parent index) of
                  Inl e \<Rightarrow> Inl e
                | Inr h' \<Rightarrow> move_up IsLess h' (Parent index))
             else Inr h)
      else Inr h)"
  by pat_completeness auto
termination
  by (relation "measure (\<lambda>(IsLess, h, index). index)") (auto simp: Parent_def)

declare move_up.simps [simp del]

definition DecreasePriority ::
  "('k \<Rightarrow> 'k \<Rightarrow> bool) \<Rightarrow> 'k HandleBasedBinaryHeap \<Rightarrow> nat \<Rightarrow> 'k
     \<Rightarrow> failure + 'k HandleBasedBinaryHeap" where
  "DecreasePriority IsLess h old_priority_handle new_priority =
     (case deref h old_priority_handle of Inl e \<Rightarrow> Inl e | Inr old \<Rightarrow>
        if IsLess (Priority old) new_priority then Inl StdException
        else
          (let h1 = h\<lparr>handles := (handles h)(old_priority_handle \<mapsto> old\<lparr>Priority := new_priority\<rparr>)\<rparr> in
           case move_up IsLess h1 (Index old) of
             Inl e \<Rightarrow> Inl e
           | Inr h2 \<Rightarrow> Inr (h2\<lparr>decreaseCounter := decreaseCounter h2 + 1\<rparr>)))"

text \<open>
  \<^verbatim>\<open>Insert\<close>: a handle with the default key and the index \<^verbatim>\<open>HeapSize()\<close> is
  allocated and pushed, then its priority is decreased to the key.  The result is the
  handle and the heap.
\<close>

definition Insert ::
  "('k \<Rightarrow> 'k \<Rightarrow> bool) \<Rightarrow> 'k \<Rightarrow> 'k HandleBasedBinaryHeap \<Rightarrow> 'k
     \<Rightarrow> failure + nat \<times> 'k HandleBasedBinaryHeap" where
  "Insert IsLess maximum_key h key =
     (let maximum_handle = next_handle h;
          h1 = h\<lparr>handles := (handles h)(maximum_handle \<mapsto> \<lparr>Priority = maximum_key, Index = HeapSize h\<rparr>),
                 next_handle := next_handle h + 1,
                 elements := elements h @ [maximum_handle]\<rparr>
      in case DecreasePriority IsLess h1 maximum_handle key of
           Inl e \<Rightarrow> Inl e
         | Inr h2 \<Rightarrow> Inr (maximum_handle, h2))"

definition First :: "'k HandleBasedBinaryHeap \<Rightarrow> failure + 'k" where
  "First h =
     (case elements_at h 0 of Inl e \<Rightarrow> Inl e | Inr p \<Rightarrow>
      case deref h p of Inl e \<Rightarrow> Inl e | Inr x \<Rightarrow> Inr (Priority x))"

text \<open>
  \<^verbatim>\<open>Remove\<close>: the first handle is deleted, the last pointer is copied to the first
  slot and the vector shrinks by one.  Then \<^verbatim>\<open>elements_[0]->SetIndex(0)\<close> reads
  the first slot with the unchecked \<^verbatim>\<open>operator[]\<close>: on a vector that has just become
  empty this is an access outside the vector, undefined behaviour.  The result is the
  removed key and the heap.
\<close>

definition Remove ::
  "('k \<Rightarrow> 'k \<Rightarrow> bool) \<Rightarrow> 'k HandleBasedBinaryHeap \<Rightarrow> failure + 'k \<times> 'k HandleBasedBinaryHeap" where
  "Remove IsLess h =
     (if HeapSize h < 1 then Inl StdException
      else
        case First h of Inl e \<Rightarrow> Inl e | Inr minimum \<Rightarrow>
        case elements_at h 0 of Inl e \<Rightarrow> Inl e | Inr first \<Rightarrow>
          (let h1 = h\<lparr>handles := (handles h)(first := None)\<rparr> in
           case elements_at h1 (HeapSize h1 - 1) of Inl e \<Rightarrow> Inl e | Inr last_handle \<Rightarrow>
             (let h2 = h1\<lparr>elements := butlast ((elements h1)[0 := last_handle])\<rparr> in
              if elements h2 = [] then Inl UndefinedBehaviour
              else
                case SetIndex h2 (elements h2 ! 0) 0 of Inl e \<Rightarrow> Inl e | Inr h3 \<Rightarrow>
                case MinHeapify IsLess h3 0 of Inl e \<Rightarrow> Inl e | Inr h4 \<Rightarrow>
                  Inr (minimum, h4\<lparr>removeCounter := removeCounter h4 + 1\<rparr>))))"

text \<open>\<^verbatim>\<open>IsEmpty\<close>.\<close>

definition IsEmpty :: "'k HandleBasedBinaryHeap \<Rightarrow> bool" where
  "IsEmpty h = (elements h = [])"

text \<open>
  A sequence of \<^verbatim>\<open>Insert\<close> calls on a heap, and \<open>n\<close> successive calls of
  \<^verbatim>\<open>Remove\<close>; the removed keys are collected in the order of their removal.
\<close>

fun insert_all ::
  "('k \<Rightarrow> 'k \<Rightarrow> bool) \<Rightarrow> 'k \<Rightarrow> 'k HandleBasedBinaryHeap \<Rightarrow> 'k list
     \<Rightarrow> failure + 'k HandleBasedBinaryHeap" where
  "insert_all IsLess maximum_key h [] = Inr h"
| "insert_all IsLess maximum_key h (key # keys) =
     (case Insert IsLess maximum_key h key of
        Inl e \<Rightarrow> Inl e
      | Inr (p, h') \<Rightarrow> insert_all IsLess maximum_key h' keys)"

fun remove_n ::
  "('k \<Rightarrow> 'k \<Rightarrow> bool) \<Rightarrow> 'k HandleBasedBinaryHeap \<Rightarrow> nat
     \<Rightarrow> failure + 'k list \<times> 'k HandleBasedBinaryHeap" where
  "remove_n IsLess h 0 = Inr ([], h)"
| "remove_n IsLess h (Suc n) =
     (case Remove IsLess h of
        Inl e \<Rightarrow> Inl e
      | Inr (minimum, h') \<Rightarrow>
          (case remove_n IsLess h' n of
             Inl e \<Rightarrow> Inl e
           | Inr (rest, h'') \<Rightarrow> Inr (minimum # rest, h'')))"


text \<open>
  Notions for stating the heap's properties.  \<open>keys_of\<close> lists the priorities in the
  order of the slots; \<open>wf_heap\<close> says that the slots hold distinct live handles, each
  knowing its own index; \<open>heap_ok\<close> is the heap order for a comparer that compares
  a projection \<open>prio\<close> into a linear order; \<open>down_inv\<close> and \<open>up_inv\<close> are the heap
  order with one position under repair.
\<close>

definition keys_of :: "'k HandleBasedBinaryHeap \<Rightarrow> 'k list" where
  "keys_of h = map (\<lambda>p. Priority (the (handles h p))) (elements h)"

definition wf_heap :: "'k HandleBasedBinaryHeap \<Rightarrow> bool" where
  "wf_heap h \<longleftrightarrow> distinct (elements h)
     \<and> (\<forall>i < length (elements h). \<exists>x. handles h (elements h ! i) = Some x \<and> Index x = i)
     \<and> (\<forall>p \<in> set (elements h). p < next_handle h)"

definition heap_ok :: "('k \<Rightarrow> 'p::linorder) \<Rightarrow> 'k list \<Rightarrow> bool" where
  "heap_ok prio ks = (\<forall>c. 0 < c \<and> c < length ks \<longrightarrow> prio (ks ! Parent c) \<le> prio (ks ! c))"

definition down_inv :: "('k \<Rightarrow> 'p::linorder) \<Rightarrow> 'k list \<Rightarrow> nat \<Rightarrow> bool" where
  "down_inv prio ks i \<longleftrightarrow>
     (\<forall>c. 0 < c \<and> c < length ks \<and> Parent c \<noteq> i \<longrightarrow> prio (ks ! Parent c) \<le> prio (ks ! c))
     \<and> (0 < i \<longrightarrow> (\<forall>c. 0 < c \<and> c < length ks \<and> Parent c = i \<longrightarrow>
                        prio (ks ! Parent i) \<le> prio (ks ! c)))"

definition up_inv :: "('k \<Rightarrow> 'p::linorder) \<Rightarrow> 'k list \<Rightarrow> nat \<Rightarrow> bool" where
  "up_inv prio ks i \<longleftrightarrow>
     (\<forall>c. 0 < c \<and> c < length ks \<and> c \<noteq> i \<longrightarrow> prio (ks ! Parent c) \<le> prio (ks ! c))
     \<and> (0 < i \<longrightarrow> (\<forall>c. 0 < c \<and> c < length ks \<and> Parent c = i \<longrightarrow>
                        prio (ks ! Parent i) \<le> prio (ks ! c)))"

text \<open>
  The test scenario of the heap: insert the keys in order into an empty heap, call
  \<^verbatim>\<open>Remove\<close> \<open>n\<close> times, and report the removed keys in their order of removal
  together with the keys left in the heap (in slot order).
\<close>

definition removal_order ::
  "('k \<Rightarrow> 'k \<Rightarrow> bool) \<Rightarrow> 'k \<Rightarrow> 'k list \<Rightarrow> nat \<Rightarrow> failure + 'k list \<times> 'k list" where
  "removal_order IsLess maximum_key keys n =
     (case insert_all IsLess maximum_key empty_heap keys of
        Inl e \<Rightarrow> Inl e
      | Inr h \<Rightarrow>
          (case remove_n IsLess h n of
             Inl e \<Rightarrow> Inl e
           | Inr (rs, h') \<Rightarrow> Inr (rs, keys_of h')))"

section \<open>Cluster labelling: \<^verbatim>\<open>src/cluster_label/cluster_label.cc\<close>\<close>

text \<open>
  A computation of the labelling code either does not return (\<open>None\<close>), or stops with a
  failure (an Armadillo bounds check raises \<^verbatim>\<open>std::logic_error\<close>, a failed \<^verbatim>\<open>assert\<close>
  aborts), or returns a value.
\<close>

type_synonym 'a comp = "(failure + 'a) option"

definition ret :: "'a \<Rightarrow> 'a comp" where
  "ret x = Some (Inr x)"

definition throw :: "failure \<Rightarrow> 'a comp" where
  "throw e = Some (Inl e)"

definition bind_comp :: "'a comp \<Rightarrow> ('a \<Rightarrow> 'b comp) \<Rightarrow> 'b comp" where
  "bind_comp m f = (case m of None \<Rightarrow> None | Some (Inl e) \<Rightarrow> Some (Inl e) | Some (Inr x) \<Rightarrow> f x)"

text \<open>A \<^verbatim>\<open>for\<close> loop over a fixed range, threading the state.\<close>

fun for_each :: "'i list \<Rightarrow> ('i \<Rightarrow> 's \<Rightarrow> 's comp) \<Rightarrow> 's \<Rightarrow> 's comp" where
  "for_each [] body s = ret s"
| "for_each (x # xs) body s = bind_comp (body x s) (for_each xs body)"

text \<open>
  \<^verbatim>\<open>arma::ucube\<close>: the elements are stored with the row index running fastest, then the
  column, then the slice.  Element access \<^verbatim>\<open>l(i, j, k)\<close> is bounds-checked.
  The values of type \<^verbatim>\<open>arma::uword\<close> (labels, stored coordinates) and \<^verbatim>\<open>arma::sword\<close> are
  integers here; the constant \<^verbatim>\<open>-1U\<close> is 4294967295.  Positions in a vector and loop
  counters are natural numbers.  An index that is negative or not below the length fails
  the bounds check.
\<close>

record ucube =
  n_rows :: nat
  n_cols :: nat
  n_slices :: nat
  mem :: "int list"

definition n_elem :: "ucube \<Rightarrow> nat" where
  "n_elem c = n_rows c * n_cols c * n_slices c"

definition cube_index :: "ucube \<Rightarrow> nat \<Rightarrow> nat \<Rightarrow> nat \<Rightarrow> nat" where
  "cube_index c i j k = i + j * n_rows c + k * n_rows c * n_cols c"

definition cube_at :: "ucube \<Rightarrow> nat \<Rightarrow> nat \<Rightarrow> nat \<Rightarrow> int comp" where
  "cube_at c i j k =
     (if i < n_rows c \<and> j < n_cols c \<and> k < n_slices c
      then ret (mem c ! cube_index c i j k) else throw LogicError)"

definition cube_set :: "ucube \<Rightarrow> nat \<Rightarrow> nat \<Rightarrow> nat \<Rightarrow> int \<Rightarrow> ucube" where
  "cube_set c i j k v = c\<lparr>mem := (mem c)[cube_index c i j k := v]\<rparr>"

text \<open>
  \<^verbatim>\<open>HKProper\<close>.  The vector \<^verbatim>\<open>n\<close> holds for a proper label the size of its cluster and for
  any other label the negated label it is linked to.  The \<^verbatim>\<open>while\<close> loop follows the links;
  \<^verbatim>\<open>n(proper)\<close> is bounds-checked.  The two \<^verbatim>\<open>static\<close> variables \<^verbatim>\<open>prev_label\<close> and
  \<^verbatim>\<open>prev_proper\<close> are threaded as a pair; both start at \<^verbatim>\<open>-1U\<close>.
\<close>

partial_function (option) follow_links :: "int list \<Rightarrow> int \<Rightarrow> int comp" where
  "follow_links n proper =
     (if proper < 0 \<or> int (length n) \<le> proper then Some (Inl LogicError)
      else if n ! nat proper < 0 then follow_links n (- (n ! nat proper))
      else Some (Inr proper))"

declare follow_links.simps [code]

definition HKProper ::
  "int \<Rightarrow> int list \<Rightarrow> int \<times> int \<Rightarrow> (int \<times> int list \<times> (int \<times> int)) comp" where
  "HKProper label n prev =
     (if fst prev = label then ret (snd prev, n, prev)
      else
        bind_comp (follow_links n label) (\<lambda>proper.
          ret (proper,
               if proper \<noteq> label then n[nat label := - proper] else n,
               (label, proper))))"

text \<open>
  \<^verbatim>\<open>transform\<close> applies \<^verbatim>\<open>HKProper\<close> to the elements of a vector (or of the cube) in order.
\<close>

fun transform ::
  "int list \<Rightarrow> int list \<Rightarrow> int \<times> int \<Rightarrow> (int list \<times> int list \<times> (int \<times> int)) comp" where
  "transform [] n prev = ret ([], n, prev)"
| "transform (x # xs) n prev =
     bind_comp (HKProper x n prev) (\<lambda>(p, n', prev').
       bind_comp (transform xs n' prev') (\<lambda>(ps, n'', prev'').
         ret (p # ps, n'', prev'')))"

text \<open>
  The labels of the neighbours of a site: each entry is a condition and the site that is
  read when the condition holds; otherwise the entry is the value \<open>outside\<close>.  The
  conditions \<^verbatim>\<open>i-imax\<close> are unsigned differences, nonzero exactly when \<open>i \<noteq> imax\<close>.
\<close>

fun read_labels :: "ucube \<Rightarrow> int \<Rightarrow> (bool \<times> nat \<times> nat \<times> nat) list \<Rightarrow> int list comp" where
  "read_labels c outside [] = ret []"
| "read_labels c outside ((cond, i, j, k) # rest) =
     bind_comp (if cond then cube_at c i j k else ret outside) (\<lambda>x.
       bind_comp (read_labels c outside rest) (\<lambda>xs. ret (x # xs)))"

definition previous_sites :: "ucube \<Rightarrow> nat \<Rightarrow> nat \<Rightarrow> nat \<Rightarrow> (bool \<times> nat \<times> nat \<times> nat) list" where
  "previous_sites c i j k =
     (let imax = n_rows c - 1; jmax = n_cols c - 1 in
      [(i \<noteq> 0 \<and> j \<noteq> 0 \<and> k \<noteq> 0, i - 1, j - 1, k - 1),
       (j \<noteq> 0 \<and> k \<noteq> 0, i, j - 1, k - 1),
       (i \<noteq> imax \<and> j \<noteq> 0 \<and> k \<noteq> 0, i + 1, j - 1, k - 1),
       (i \<noteq> 0 \<and> k \<noteq> 0, i - 1, j, k - 1),
       (k \<noteq> 0, i, j, k - 1),
       (i \<noteq> imax \<and> k \<noteq> 0, i + 1, j, k - 1),
       (i \<noteq> 0 \<and> j \<noteq> jmax \<and> k \<noteq> 0, i - 1, j + 1, k - 1),
       (j \<noteq> jmax \<and> k \<noteq> 0, i, j + 1, k - 1),
       (i \<noteq> imax \<and> j \<noteq> jmax \<and> k \<noteq> 0, i + 1, j + 1, k - 1),
       (i \<noteq> 0 \<and> j \<noteq> 0, i - 1, j - 1, k),
       (j \<noteq> 0, i, j - 1, k),
       (i \<noteq> imax \<and> j \<noteq> 0, i + 1, j - 1, k),
       (i \<noteq> 0, i - 1, j, k)])"

text \<open>
  \<^verbatim>\<open>PreviousNeighbours\<close>: thirteen calls of \<^verbatim>\<open>HKProper\<close>, on the labels of the neighbours
  that were visited before the site.  The cube is not written between the calls, so the
  thirteen labels are read first.
\<close>

definition PreviousNeighbours ::
  "nat \<Rightarrow> nat \<Rightarrow> nat \<Rightarrow> ucube \<Rightarrow> int list \<Rightarrow> int \<times> int
     \<Rightarrow> (int list \<times> int list \<times> (int \<times> int)) comp" where
  "PreviousNeighbours i j k c n prev =
     bind_comp (read_labels c 0 (previous_sites c i j k)) (\<lambda>labels. transform labels n prev)"

definition all_sites :: "ucube \<Rightarrow> nat \<Rightarrow> nat \<Rightarrow> nat \<Rightarrow> (bool \<times> nat \<times> nat \<times> nat) list" where
  "all_sites c i j k =
     (let imax = n_rows c - 1; jmax = n_cols c - 1; kmax = n_slices c - 1 in
      previous_sites c i j k @
      [(i \<noteq> imax, i + 1, j, k),
       (i \<noteq> 0 \<and> j \<noteq> jmax, i - 1, j + 1, k),
       (j \<noteq> jmax, i, j + 1, k),
       (i \<noteq> imax \<and> j \<noteq> jmax, i + 1, j + 1, k),
       (i \<noteq> 0 \<and> j \<noteq> 0 \<and> k \<noteq> kmax, i - 1, j - 1, k + 1),
       (j \<noteq> 0 \<and> k \<noteq> kmax, i, j - 1, k + 1),
       (i \<noteq> imax \<and> j \<noteq> 0 \<and> k \<noteq> kmax, i + 1, j - 1, k + 1),
       (i \<noteq> 0 \<and> k \<noteq> kmax, i - 1, j, k + 1),
       (k \<noteq> kmax, i, j, k + 1),
       (i \<noteq> imax \<and> k \<noteq> kmax, i + 1, j, k + 1),
       (i \<noteq> 0 \<and> j \<noteq> jmax \<and> k \<noteq> kmax, i - 1, j + 1, k + 1),
       (j \<noteq> jmax \<and> k \<noteq> kmax, i, j + 1, k + 1),
       (i \<noteq> imax \<and> j \<noteq> jmax \<and> k \<noteq> kmax, i + 1, j + 1, k + 1)])"

definition AllNeighbours :: "nat \<Rightarrow> nat \<Rightarrow> nat \<Rightarrow> ucube \<Rightarrow> int list comp" where
  "AllNeighbours i j k c = read_labels c 4294967295 (all_sites c i j k)"

text \<open>
  The state of \<^verbatim>\<open>EnhancedHoshenKopelman\<close>: the cube \<^verbatim>\<open>l\<close>, the vector \<^verbatim>\<open>n\<close> (field
  \<open>links\<close>), the bounding boxes (one row of three coordinates per label), the largest
  label assigned so far, and the static variables of \<^verbatim>\<open>HKProper\<close>.
\<close>

record HKState =
  cube :: ucube
  links :: "int list"
  bbox_min :: "int list list"
  bbox_max :: "int list list"
  largest_label :: int
  statics :: "int \<times> int"

text \<open>
  The body of the sweep for one site.  \<^verbatim>\<open>arma::unique(nnl.elem(arma::find(nnl)))\<close> is the
  ascending list of the distinct nonzero entries.  \<open>assign_label\<close> is the \<^verbatim>\<open>switch\<close> on the
  number of these entries: the site joins an existing cluster, starts a new cluster, or
  merges clusters.  The accesses \<^verbatim>\<open>n(x)\<close>, \<^verbatim>\<open>n.elem(...)\<close> and \<^verbatim>\<open>row(x)\<close> are
  bounds-checked; \<^verbatim>\<open>n\<close> and the bounding boxes have the same number of rows.
\<close>

definition assign_label ::
  "nat \<Rightarrow> nat \<Rightarrow> nat \<Rightarrow> HKState \<Rightarrow> int list \<Rightarrow> int list \<Rightarrow> int \<times> int \<Rightarrow> HKState comp" where
  "assign_label i j k s nnl n2 prev2 =
     (let uniq_non0 = sort (remdups (filter (\<lambda>x. x \<noteq> 0) nnl));
          t = [int i, int j, int k]
      in case uniq_non0 of
           [] \<Rightarrow>
             (let label = largest_label s + 1 in
              if 0 \<le> label \<and> label < int (length n2) then
                ret (s\<lparr>cube := cube_set (cube s) i j k label,
                        links := n2[nat label := n2 ! nat label + 1],
                        bbox_min := (bbox_min s)[nat label := t],
                        bbox_max := (bbox_max s)[nat label := t],
                        largest_label := label,
                        statics := prev2\<rparr>)
              else throw LogicError)
         | [label] \<Rightarrow>
             if 0 \<le> label \<and> label < int (length n2) then
               ret (s\<lparr>cube := cube_set (cube s) i j k label,
                       links := n2[nat label := n2 ! nat label + 1],
                       bbox_min := (bbox_min s)[nat label :=
                                     map2 min t (bbox_min s ! nat label)],
                       bbox_max := (bbox_max s)[nat label :=
                                     map2 max t (bbox_max s ! nat label)],
                       statics := prev2\<rparr>)
             else throw LogicError
         | label # tail \<Rightarrow>
             if \<forall>x \<in> set uniq_non0. 0 \<le> x \<and> x < int (length n2) then
               (let n3 = n2[nat label :=
                             n2 ! nat label + (1 + sum_list (map (\<lambda>x. n2 ! nat x) tail))];
                    n4 = fold (\<lambda>x m. m[nat x := - label]) tail n3;
                    lo = map2 min t (fold (map2 min) (map (\<lambda>x. bbox_min s ! nat x) tail)
                                       (bbox_min s ! nat label));
                    hi = map2 max t (fold (map2 max) (map (\<lambda>x. bbox_max s ! nat x) tail)
                                       (bbox_max s ! nat label))
                in ret (s\<lparr>cube := cube_set (cube s) i j k label,
                           links := n4,
                           bbox_min := fold (\<lambda>x m. m[nat x := [0, 0, 0]]) tail
                                         ((bbox_min s)[nat label := lo]),
                           bbox_max := fold (\<lambda>x m. m[nat x := [0, 0, 0]]) tail
                                         ((bbox_max s)[nat label := hi]),
                           statics := prev2\<rparr>))
             else throw LogicError)"

definition label_site :: "nat \<Rightarrow> nat \<Rightarrow> nat \<Rightarrow> HKState \<Rightarrow> HKState comp" where
  "label_site i j k s =
     bind_comp (cube_at (cube s) i j k) (\<lambda>flag.
       if flag = 0 then ret s
       else
         bind_comp (PreviousNeighbours i j k (cube s) (links s) (statics s)) (\<lambda>(nnl, n1, prev1).
         bind_comp (transform nnl n1 prev1) (\<lambda>(nnl', n2, prev2).
           assign_label i j k s nnl' n2 prev2)))"

text \<open>
  The sweep: for every slice, for every column, for every row.  \<open>sweep_until\<close> is the
  part of the sweep that is executed before the site \<open>(i, j, k)\<close> is visited.
\<close>

definition sweep_rows :: "nat list \<Rightarrow> nat \<Rightarrow> nat \<Rightarrow> HKState \<Rightarrow> HKState comp" where
  "sweep_rows rows j k = for_each rows (\<lambda>i. label_site i j k)"

definition sweep_cols :: "nat list \<Rightarrow> nat \<Rightarrow> HKState \<Rightarrow> HKState comp" where
  "sweep_cols cols k s = for_each cols (\<lambda>j. sweep_rows [0..<n_rows (cube s)] j k) s"

definition sweep :: "HKState \<Rightarrow> HKState comp" where
  "sweep s = for_each [0..<n_slices (cube s)] (\<lambda>k s'. sweep_cols [0..<n_cols (cube s')] k s') s"

definition sweep_until :: "nat \<Rightarrow> nat \<Rightarrow> nat \<Rightarrow> HKState \<Rightarrow> HKState comp" where
  "sweep_until i j k s =
     bind_comp (for_each [0..<k] (\<lambda>k' s'. sweep_cols [0..<n_cols (cube s')] k' s') s) (\<lambda>s1.
     bind_comp (sweep_cols [0..<j] k s1) (\<lambda>s2.
       sweep_rows [0..<i] j k s2))"

text \<open>
  \<^verbatim>\<open>HKCheck\<close>: every site is replaced by its proper label, then the labels of the 26
  neighbours of every labelled site are compared with the label of the site.  The
  comparison is an \<^verbatim>\<open>assert\<close>; \<open>ndebug\<close> tells whether assertions are compiled out.
\<close>

definition check_site :: "nat \<Rightarrow> nat \<Rightarrow> nat \<Rightarrow> ucube \<Rightarrow> ucube comp" where
  "check_site i j k c =
     bind_comp (cube_at c i j k) (\<lambda>label.
       if label = 0 then ret c
       else
         bind_comp (AllNeighbours i j k c) (\<lambda>nnl.
           if list_all (\<lambda>x. x = 4294967295 \<or> x = 0 \<or> x = label) nnl then ret c
           else throw AssertionFailure))"

definition check_sites :: "ucube \<Rightarrow> ucube comp" where
  "check_sites c =
     for_each [0..<n_slices c] (\<lambda>k.
       for_each [0..<n_cols c] (\<lambda>j.
         for_each [0..<n_rows c] (\<lambda>i. check_site i j k))) c"

definition HKCheck :: "bool \<Rightarrow> HKState \<Rightarrow> HKState comp" where
  "HKCheck ndebug s =
     bind_comp (transform (mem (cube s)) (links s) (statics s)) (\<lambda>(labels, n', prev').
       (let s' = s\<lparr>cube := (cube s)\<lparr>mem := labels\<rparr>, links := n', statics := prev'\<rparr> in
        if ndebug then ret s'
        else bind_comp (check_sites (cube s')) (\<lambda>c. ret s')))"

text \<open>
  The search for the infinite clusters.  A label percolates when the product of the
  extents of its bounding box is the number of elements of the cube; the arithmetic is
  that of \<^verbatim>\<open>arma::uword\<close>, modulo \<open>2^64\<close>.  The loop walks the labels in the order
  \<open>idx\<close> and stops at the first label that does not percolate.
\<close>

definition percolates :: "HKState \<Rightarrow> int \<Rightarrow> bool" where
  "percolates s x =
     (fold (\<lambda>e p. (p * e) mod 2 ^ 64)
        (map2 (\<lambda>hi lo. (hi - lo + 1) mod 2 ^ 64) (bbox_max s ! nat x) (bbox_min s ! nat x)) 1
      = int (n_elem (cube s)))"

fun count_infinite :: "HKState \<Rightarrow> int list \<Rightarrow> nat \<Rightarrow> nat comp" where
  "count_infinite s [] infinite_clusters = ret infinite_clusters"
| "count_infinite s (x # xs) infinite_clusters =
     (if 0 \<le> x \<and> x < int (length (bbox_max s)) \<and> x < int (length (bbox_min s)) then
        (if percolates s x then count_infinite s xs (infinite_clusters + 1)
         else ret infinite_clusters)
      else throw LogicError)"

text \<open>
  \<^verbatim>\<open>arma::sort_index(n, "descend")\<close> returns the indices of \<^verbatim>\<open>n\<close> ordered by descending
  value; the order of indices with equal values is not specified.  The function is a
  parameter of the model; \<open>sort_index_descend\<close> is the one that keeps equal values in
  ascending order of their index.
\<close>

definition sort_index_descend :: "int list \<Rightarrow> int list" where
  "sort_index_descend n = map int (sort_key (\<lambda>x. - (n ! x)) [0..<length n])"

text \<open>
  \<^verbatim>\<open>EnhancedHoshenKopelman\<close>.  The matrices of the bounding boxes are allocated without
  initialisation: their initial rows are given by \<open>junk_min\<close> and \<open>junk_max\<close>.  The
  static variables of \<^verbatim>\<open>HKProper\<close> have their initial values (the function is called once
  in a run of the program).
\<close>

definition initial_state ::
  "(nat \<Rightarrow> int list) \<Rightarrow> (nat \<Rightarrow> int list) \<Rightarrow> ucube \<Rightarrow> HKState" where
  "initial_state junk_min junk_max l =
     \<lparr>cube = l,
      links = replicate (n_elem l div 2) 0,
      bbox_min = map junk_min [0..<n_elem l div 2],
      bbox_max = map junk_max [0..<n_elem l div 2],
      largest_label = 0,
      statics = (4294967295, 4294967295)\<rparr>"

definition eliminate :: "HKState \<Rightarrow> int list \<Rightarrow> HKState comp" where
  "eliminate s head =
     bind_comp (transform (mem (cube s)) (links s) (statics s)) (\<lambda>(labels, n', prev').
       ret (s\<lparr>cube := (cube s)\<lparr>mem := map (\<lambda>p. if p \<in> set head then 1 else 0) labels\<rparr>,
              links := n', statics := prev'\<rparr>))"

definition EnhancedHoshenKopelman ::
  "(int list \<Rightarrow> int list) \<Rightarrow> bool \<Rightarrow> (nat \<Rightarrow> int list) \<Rightarrow> (nat \<Rightarrow> int list) \<Rightarrow> ucube
     \<Rightarrow> ucube comp" where
  "EnhancedHoshenKopelman sort_index ndebug junk_min junk_max l =
     bind_comp (sweep (initial_state junk_min junk_max l)) (\<lambda>s1.
     bind_comp (HKCheck ndebug s1) (\<lambda>s2.
       (let idx = sort_index (links s2) in
        bind_comp (count_infinite s2 idx 0) (\<lambda>infinite_clusters.
        bind_comp (eliminate s2 (take infinite_clusters idx)) (\<lambda>s3.
          ret (cube s3))))))"


text \<open>
  Notions for stating the properties of the labelling.  The static variables are valid
  for \<open>n\<close> when the remembered proper label is the end of the chain of the remembered
  label; \<open>same_ends\<close> says that the chains of \<open>n'\<close> end where they end in \<open>n\<close>;
  \<open>roots_kept\<close> says that the entries of proper labels are unchanged and links remain
  links.
\<close>

definition cache_valid :: "int list \<Rightarrow> int \<times> int \<Rightarrow> bool" where
  "cache_valid n c = (follow_links n (fst c) = ret (snd c))"

definition same_ends :: "int list \<Rightarrow> int list \<Rightarrow> bool" where
  "same_ends n n' =
     (length n' = length n \<and> (\<forall>y q. follow_links n' y = ret q \<longrightarrow> follow_links n y = ret q))"

definition roots_kept :: "int list \<Rightarrow> int list \<Rightarrow> bool" where
  "roots_kept n n' =
     (length n' = length n \<and>
      (\<forall>q < length n. (0 \<le> n ! q \<longrightarrow> n' ! q = n ! q) \<and> (n ! q < 0 \<longrightarrow> n' ! q < 0)))"


text \<open>
  Invariants of the sweep.  The link of label 0 is never written and label 1 is never
  linked to another label; the static variables are valid or remember a label other than
  0 and 1; when the sweep is about to visit the site \<open>(i, j, k)\<close> and the static variables
  are not valid, the remembered label is not the label of the site visited just before.
\<close>

definition links_ok :: "int list \<Rightarrow> bool" where
  "links_ok n = ((0 < length n \<longrightarrow> n ! 0 = 0) \<and> (1 < length n \<longrightarrow> 0 \<le> n ! 1))"

definition statics_ok :: "int list \<Rightarrow> int \<times> int \<Rightarrow> bool" where
  "statics_ok n c = (cache_valid n c \<or> (fst c \<noteq> 0 \<and> fst c \<noteq> 1))"

definition sweep_inv :: "HKState \<Rightarrow> bool" where
  "sweep_inv s =
     (links_ok (links s) \<and> statics_ok (links s) (statics s) \<and> 0 \<le> largest_label s
      \<and> length (mem (cube s)) = n_elem (cube s))"

definition site_inv :: "nat \<Rightarrow> nat \<Rightarrow> nat \<Rightarrow> HKState \<Rightarrow> bool" where
  "site_inv i j k s =
     (cache_valid (links s) (statics s) \<or>
      (fst (statics s) \<noteq> 0 \<and> fst (statics s) \<noteq> 1 \<and>
       (i \<noteq> 0 \<longrightarrow> mem (cube s) ! cube_index (cube s) (i - 1) j k \<noteq> fst (statics s))))"

definition same_shape :: "HKState \<Rightarrow> HKState \<Rightarrow> bool" where
  "same_shape s s' =
     (n_rows (cube s') = n_rows (cube s) \<and> n_cols (cube s') = n_cols (cube s)
      \<and> n_slices (cube s') = n_slices (cube s)
      \<and> length (mem (cube s')) = length (mem (cube s)))"


definition first_ok :: "HKState \<Rightarrow> bool" where
  "first_ok s = (mem (cube s) ! 0 = 0 \<or> mem (cube s) ! 0 = 1)"


section \<open>The skeletonizer: image-foresting transform\<close>

definition bind_fail :: "failure + 'a \<Rightarrow> ('a \<Rightarrow> failure + 'b) \<Rightarrow> failure + 'b" where
  "bind_fail m f = (case m of Inl e \<Rightarrow> Inl e | Inr x \<Rightarrow> f x)"

text \<open>
  \<^verbatim>\<open>TwentySixNeighbourCalculator::GetNeighbours\<close>: the 26 points \<open>(dx + x - 1, dy + y - 1,
  dz + z - 1)\<close> in the order of the three nested loops; the sums are cast to
  \<^verbatim>\<open>uint16_t\<close>, so a neighbour below 0 has the coordinate 65535.
\<close>

definition GetNeighbours :: "Voxel \<Rightarrow> Voxel list" where
  "GetNeighbours p =
     (case p of (x, y, z) \<Rightarrow>
        [(dx + x - 1, dy + y - 1, dz + z - 1).
           dx \<leftarrow> [0, 1, 2], dy \<leftarrow> [0, 1, 2], dz \<leftarrow> [0, 1, 2], dx \<noteq> 1 \<or> dy \<noteq> 1 \<or> dz \<noteq> 1])"

text \<open>
  The writing operations of \<^verbatim>\<open>AnnotatedImage\<close>: \<^verbatim>\<open>TryAddAnnotation\<close> inserts only when the
  point has no annotation, \<^verbatim>\<open>AddPointAnnotation\<close> and \<^verbatim>\<open>ModifyAnnotation\<close> throw
  \<^verbatim>\<open>std::exception\<close> when the point has, respectively has not, an annotation.
\<close>

definition TryAddAnnotation :: "AnnotatedImage \<Rightarrow> Voxel \<Rightarrow> Annotation \<Rightarrow> bool \<times> AnnotatedImage" where
  "TryAddAnnotation anns p a =
     (if HasAnnotation anns p then (False, anns) else (True, (p, a) # anns))"

definition AddPointAnnotation :: "AnnotatedImage \<Rightarrow> Voxel \<Rightarrow> Annotation \<Rightarrow> failure + AnnotatedImage" where
  "AddPointAnnotation anns p a =
     (if HasAnnotation anns p then Inl StdException else Inr ((p, a) # anns))"

definition ModifyAnnotation :: "AnnotatedImage \<Rightarrow> Voxel \<Rightarrow> Annotation \<Rightarrow> failure + AnnotatedImage" where
  "ModifyAnnotation anns p a =
     (if HasAnnotation anns p
      then Inr (map (\<lambda>e. if fst e = p then (p, a) else e) anns)
      else Inl StdException)"

text \<open>
  The points of the image in the order of \<^verbatim>\<open>TernaryImage::Iterator\<close>, from
  \<^verbatim>\<open>begin()\<close> until it compares equal to \<^verbatim>\<open>end()\<close>: the first coordinate runs
  fastest.  The comparison with the end looks at the last coordinate only
  (\<^verbatim>\<open>IsEnd\<close>), and \<^verbatim>\<open>operator++\<close> sets a coordinate back to 0 when, after the
  increment, it has reached its size.  So the walk starts at (0, 0, 0) whenever the last
  size is positive, and a first or second dimension of size 0 is walked like one of
  size 1.
\<close>

definition image_points :: "TernaryImage \<Rightarrow> Voxel list" where
  "image_points img =
     [(of_nat x, of_nat y, of_nat z).
        z \<leftarrow> [0..<unat (sizes img ! 2)], y \<leftarrow> [0..<max 1 (unat (sizes img ! 1))],
        x \<leftarrow> [0..<max 1 (unat (sizes img ! 0))]]"

text \<open>
  \<^verbatim>\<open>ContourCalculator\<close> (contour_calculator.h).  \<^verbatim>\<open>BuildContourFromPoint\<close> is a breadth-first
  walk over the contour points (value 1) reachable from the start: a point taken from the
  queue is annotated with the contour label and the next pixel label unless it has an
  annotation already, and then its neighbours that are contour points are enqueued.
\<close>

definition BuildAnnotation :: "32 word \<Rightarrow> 32 word \<Rightarrow> Annotation" where
  "BuildAnnotation cl pl = default_Annotation\<lparr>contour_label := cl, pixel_label := pl\<rparr>"

record ContourCalculator =
  maximum_pixel_label :: "32 word"
  pixels_per_contour :: "32 word list"
  labeled_points :: "Voxel list"

partial_function (option) BuildContourFromPoint ::
  "TernaryImage \<Rightarrow> 32 word \<Rightarrow> Voxel list \<Rightarrow> 32 word \<Rightarrow> bool \<Rightarrow> AnnotatedImage \<Rightarrow> Voxel list
     \<Rightarrow> (32 word \<times> bool \<times> AnnotatedImage \<times> Voxel list) option" where
  "BuildContourFromPoint img cl points_stack pl has_built anns labeled =
     (case points_stack of
        [] \<Rightarrow> Some (pl, has_built, anns, labeled)
      | current_point # rest \<Rightarrow>
          if IsContourPoint img current_point
             \<and> fst (TryAddAnnotation anns current_point (BuildAnnotation cl pl))
          then BuildContourFromPoint img cl
                 (rest @ filter (IsContourPoint img) (GetNeighbours current_point))
                 (pl + 1) True
                 (snd (TryAddAnnotation anns current_point (BuildAnnotation cl pl)))
                 (labeled @ [current_point])
          else BuildContourFromPoint img cl rest pl has_built anns labeled)"

declare BuildContourFromPoint.simps [code]

text \<open>
  \<^verbatim>\<open>ComputeContours\<close>: every contour point of the image is tried as the start of a contour.
\<close>

fun ComputeContours_loop ::
  "TernaryImage \<Rightarrow> Voxel list \<Rightarrow> 32 word \<Rightarrow> AnnotatedImage \<Rightarrow> ContourCalculator
     \<Rightarrow> (AnnotatedImage \<times> ContourCalculator) option" where
  "ComputeContours_loop img [] cl anns cc = Some (anns, cc)"
| "ComputeContours_loop img (p # ps) cl anns cc =
     (if \<not> IsContourPoint img p then ComputeContours_loop img ps cl anns cc
      else
        (case BuildContourFromPoint img cl [p] 1 False anns (labeled_points cc) of
           None \<Rightarrow> None
         | Some (max_label, has_built, anns', labeled') \<Rightarrow>
             if has_built then
               ComputeContours_loop img ps (cl + 1) anns'
                 (cc\<lparr>labeled_points := labeled',
                     pixels_per_contour := pixels_per_contour cc @ [max_label],
                     maximum_pixel_label :=
                       (if max_label > maximum_pixel_label cc then max_label
                        else maximum_pixel_label cc)\<rparr>)
             else ComputeContours_loop img ps cl anns' (cc\<lparr>labeled_points := labeled'\<rparr>)))"

definition ComputeContours ::
  "TernaryImage \<Rightarrow> AnnotatedImage \<Rightarrow> (AnnotatedImage \<times> ContourCalculator) option" where
  "ComputeContours img anns =
     ComputeContours_loop img (image_points img) 1 anns
       \<lparr>maximum_pixel_label = 0, pixels_per_contour = [], labeled_points = []\<rparr>"

text \<open>
  \<^verbatim>\<open>SkeletonizerKey\<close> (skeletonizer_key.h): distance, counter and point.  The order compares
  the distance and then the counter; equality and the hash look at the distance and the
  counter only.  The default key has the largest distance and counter.
\<close>

type_synonym SkeletonizerKey = "32 word \<times> 32 word \<times> Voxel"

definition key_less :: "SkeletonizerKey \<Rightarrow> SkeletonizerKey \<Rightarrow> bool" where
  "key_less a b =
     (fst a < fst b \<or> (fst a = fst b \<and> fst (snd a) < fst (snd b)))"

definition key_id :: "SkeletonizerKey \<Rightarrow> 32 word \<times> 32 word" where
  "key_id a = (fst a, fst (snd a))"

definition default_key :: SkeletonizerKey where
  "default_key = (4294967295, 4294967295, (0, 0, 0))"

text \<open>
  \<^verbatim>\<open>BinaryHeap<SkeletonizerKey>\<close> (binary_heap.h): the vector of keys and the
  \<^verbatim>\<open>unordered_map\<close> from keys to their index.  \<^verbatim>\<open>at\<close> throws \<^verbatim>\<open>std::out_of_range\<close> for a
  missing key, \<^verbatim>\<open>insert\<close> does nothing when the key is present.
\<close>

record BinaryHeap =
  heap_elements :: "SkeletonizerKey list"
  key_to_index :: "((32 word \<times> 32 word) \<times> nat) list"

definition heap_at :: "BinaryHeap \<Rightarrow> nat \<Rightarrow> failure + SkeletonizerKey" where
  "heap_at h i = (if i < length (heap_elements h) then Inr (heap_elements h ! i) else Inl OutOfRange)"

definition index_at :: "BinaryHeap \<Rightarrow> SkeletonizerKey \<Rightarrow> failure + nat" where
  "index_at h k = (case map_of (key_to_index h) (key_id k) of None \<Rightarrow> Inl OutOfRange | Some i \<Rightarrow> Inr i)"

definition index_put :: "BinaryHeap \<Rightarrow> SkeletonizerKey \<Rightarrow> nat \<Rightarrow> failure + BinaryHeap" where
  "index_put h k i =
     (case map_of (key_to_index h) (key_id k) of
        None \<Rightarrow> Inl OutOfRange
      | Some old \<Rightarrow>
          Inr (h\<lparr>key_to_index :=
                   map (\<lambda>e. if fst e = key_id k then (key_id k, i) else e) (key_to_index h)\<rparr>))"

definition index_erase :: "BinaryHeap \<Rightarrow> SkeletonizerKey \<Rightarrow> BinaryHeap" where
  "index_erase h k = h\<lparr>key_to_index := filter (\<lambda>e. fst e \<noteq> key_id k) (key_to_index h)\<rparr>"

definition index_insert :: "BinaryHeap \<Rightarrow> SkeletonizerKey \<Rightarrow> nat \<Rightarrow> BinaryHeap" where
  "index_insert h k i =
     (case map_of (key_to_index h) (key_id k) of
        None \<Rightarrow> h\<lparr>key_to_index := (key_id k, i) # key_to_index h\<rparr>
      | Some old \<Rightarrow> h)"

text \<open>
  \<^verbatim>\<open>std::swap\<close> of two slots followed by the two updates of the index map, as in
  \<^verbatim>\<open>MinHeapify\<close> and in the loop of \<^verbatim>\<open>IncreasePriority\<close>.
\<close>

definition heap_swap :: "BinaryHeap \<Rightarrow> nat \<Rightarrow> nat \<Rightarrow> failure + BinaryHeap" where
  "heap_swap h i j =
     bind_fail (heap_at h i) (\<lambda>a.
     bind_fail (heap_at h j) (\<lambda>b.
       (let h1 = h\<lparr>heap_elements := (heap_elements h)[i := b, j := a]\<rparr> in
        bind_fail (index_put h1 (heap_elements h1 ! i) i) (\<lambda>h2.
          index_put h2 (heap_elements h2 ! j) j))))"

function BinaryHeap_MinHeapify :: "BinaryHeap \<Rightarrow> nat \<Rightarrow> failure + BinaryHeap" where
  "BinaryHeap_MinHeapify h index =
     (let left = 1 + index * 2; right = 2 + index * 2;
          smallest1 = (if left < length (heap_elements h)
                          \<and> key_less (heap_elements h ! left) (heap_elements h ! index)
                       then left else index);
          smallest = (if right < length (heap_elements h)
                         \<and> key_less (heap_elements h ! right) (heap_elements h ! smallest1)
                      then right else smallest1)
      in if smallest \<noteq> index then
           (case heap_swap h index smallest of
              Inl e \<Rightarrow> Inl e
            | Inr h' \<Rightarrow> BinaryHeap_MinHeapify h' smallest)
         else Inr h)"
  by pat_completeness auto
termination
proof (relation "measure (\<lambda>(h, index). length (heap_elements h) - index)", goal_cases)
  case 1
  then show ?case by simp
next
  case (2 h index left right smallest1 smallest h')
  have len: "length (heap_elements h') = length (heap_elements h)"
    using 2(6)
    by (auto simp: heap_swap_def bind_fail_def heap_at_def index_put_def Let_def
             split: if_splits option.splits sum.splits)
  have "smallest < length (heap_elements h)" "index < smallest"
    using 2(1,2,3,4,5) by (auto split: if_splits)
  with len show ?case by simp
qed

declare BinaryHeap_MinHeapify.simps [simp del]

function heap_move_up :: "BinaryHeap \<Rightarrow> nat \<Rightarrow> failure + BinaryHeap" where
  "heap_move_up h index =
     (if index > 0 then
        (case heap_at h index of Inl e \<Rightarrow> Inl e | Inr a \<Rightarrow>
         case heap_at h ((index - 1) div 2) of Inl e \<Rightarrow> Inl e | Inr b \<Rightarrow>
           if key_less a b then
             (case heap_swap h index ((index - 1) div 2) of
                Inl e \<Rightarrow> Inl e
              | Inr h' \<Rightarrow> heap_move_up h' ((index - 1) div 2))
           else Inr h)
      else Inr h)"
  by pat_completeness auto
termination
  by (relation "measure (\<lambda>(h, index). index)") auto

declare heap_move_up.simps [simp del]

text \<open>
  \<^verbatim>\<open>IncreasePriority(index, new_priority)\<close>, \<^verbatim>\<open>IncreasePriority(old_priority,
  new_priority)\<close>, \<^verbatim>\<open>Insert\<close>, \<^verbatim>\<open>Remove\<close> and \<^verbatim>\<open>HasElements\<close>.  \<^verbatim>\<open>Remove\<close> copies the last
  key to the first slot and erases the removed key from the index map; the index of the
  moved key is corrected only if \<^verbatim>\<open>MinHeapify\<close> swaps it.
\<close>

definition IncreasePriority_index :: "BinaryHeap \<Rightarrow> nat \<Rightarrow> SkeletonizerKey \<Rightarrow> failure + BinaryHeap" where
  "IncreasePriority_index h index new_priority =
     bind_fail (heap_at h index) (\<lambda>old_priority.
       if key_less old_priority new_priority then Inl StdException
       else
         (let h1 = index_erase h old_priority;
              h2 = h1\<lparr>heap_elements := (heap_elements h1)[index := new_priority]\<rparr>;
              h3 = index_insert h2 new_priority index
          in heap_move_up h3 index))"

definition IncreasePriority_key ::
  "BinaryHeap \<Rightarrow> SkeletonizerKey \<Rightarrow> SkeletonizerKey \<Rightarrow> failure + BinaryHeap" where
  "IncreasePriority_key h old_priority new_priority =
     (if key_less old_priority new_priority then Inl StdException
      else bind_fail (index_at h old_priority) (\<lambda>old_index.
             IncreasePriority_index h old_index new_priority))"

definition BinaryHeap_Insert :: "BinaryHeap \<Rightarrow> SkeletonizerKey \<Rightarrow> failure + BinaryHeap" where
  "BinaryHeap_Insert h key =
     (let h1 = h\<lparr>heap_elements := heap_elements h @ [default_key]\<rparr> in
      IncreasePriority_index h1 (length (heap_elements h1) - 1) key)"

definition BinaryHeap_Remove :: "BinaryHeap \<Rightarrow> failure + SkeletonizerKey \<times> BinaryHeap" where
  "BinaryHeap_Remove h =
     (if length (heap_elements h) < 1 then Inl StdException
      else
        (let minimum = heap_elements h ! 0;
             h1 = h\<lparr>heap_elements :=
                    butlast ((heap_elements h)[0 := heap_elements h ! (length (heap_elements h) - 1)])\<rparr>;
             h2 = index_erase h1 minimum
         in bind_fail (BinaryHeap_MinHeapify h2 0) (\<lambda>h3. Inr (minimum, h3))))"

definition HasElements :: "BinaryHeap \<Rightarrow> bool" where
  "HasElements h = (heap_elements h \<noteq> [])"

text \<open>
  \<^verbatim>\<open>QuadraticPathCalculator\<close> (quadratic_path_calculator.h).  For one axis the accumulated
  displacement of the origin (an \<^verbatim>\<open>int32_t\<close>) and the absolute difference of the two
  coordinates are added and the sum is squared, both in \<^verbatim>\<open>int\<close>: an overflow there is
  undefined behaviour.  The squares are cast to \<^verbatim>\<open>uint32_t\<close> and summed modulo \<open>2^32\<close>.
\<close>

definition axis_distance :: "Voxel \<Rightarrow> Annotation \<Rightarrow> Voxel \<Rightarrow> nat \<Rightarrow> failure + int" where
  "axis_distance origin origin_annotation neighbour index =
     (if index < length (displacements origin_annotation) then
        (let d = sint (displacements origin_annotation ! index)
                   + \<bar>uint (GetCoordinate neighbour index) - uint (GetCoordinate origin index)\<bar>
         in if d > 2147483647 \<or> d * d > 2147483647 then Inl UndefinedBehaviour else Inr d)
      else Inl OutOfRange)"

definition GetConcatenatedPathCost :: "Voxel \<Rightarrow> Annotation \<Rightarrow> Voxel \<Rightarrow> failure + 32 word" where
  "GetConcatenatedPathCost origin origin_annotation neighbour =
     bind_fail (axis_distance origin origin_annotation neighbour 0) (\<lambda>d0.
     bind_fail (axis_distance origin origin_annotation neighbour 1) (\<lambda>d1.
     bind_fail (axis_distance origin origin_annotation neighbour 2) (\<lambda>d2.
       Inr (word_of_int (d0 * d0) + word_of_int (d1 * d1) + word_of_int (d2 * d2)))))"

definition UpdatePointPathCost ::
  "Voxel \<Rightarrow> Annotation \<Rightarrow> Voxel \<Rightarrow> Annotation \<Rightarrow> failure + Annotation" where
  "UpdatePointPathCost origin origin_annotation neighbour neighbour_annotation =
     bind_fail (axis_distance origin origin_annotation neighbour 0) (\<lambda>d0.
     bind_fail (axis_distance origin origin_annotation neighbour 1) (\<lambda>d1.
     bind_fail (axis_distance origin origin_annotation neighbour 2) (\<lambda>d2.
       if length (displacements neighbour_annotation) = 3 then
         Inr (neighbour_annotation
               \<lparr>displacements := [word_of_int d0, word_of_int d1, word_of_int d2],
                distance := word_of_int (d0 * d0) + word_of_int (d1 * d1) + word_of_int (d2 * d2)\<rparr>)
       else Inl OutOfRange)))"

text \<open>
  \<^verbatim>\<open>SkeletonizerByIFT\<close> (skeletonizer_by_ift.h).  The state is the annotated image, the
  counter of the keys, the contour calculator and the queue of \<^verbatim>\<open>ComputeSkeleton\<close>.
\<close>

record Skeletonizer =
  annotations :: AnnotatedImage
  counter_value :: "32 word"
  contour_calculator :: ContourCalculator
  queue :: BinaryHeap

definition GetKey :: "Skeletonizer \<Rightarrow> 32 word \<Rightarrow> Voxel \<Rightarrow> SkeletonizerKey \<times> Skeletonizer" where
  "GetKey s d p = ((d, counter_value s, p), s\<lparr>counter_value := counter_value s + 1\<rparr>)"

definition InitialiseAnnotationOfSeedPoint ::
  "Skeletonizer \<Rightarrow> Voxel \<Rightarrow> 32 word \<Rightarrow> failure + Skeletonizer" where
  "InitialiseAnnotationOfSeedPoint s p counter =
     bind_fail (ReadAnnotation (annotations s) p) (\<lambda>a.
     bind_fail (ModifyAnnotation (annotations s) p
                  (a\<lparr>status := inserted, displacements := [0, 0, 0], distance := 0,
                     tag := counter, point := p\<rparr>)) (\<lambda>anns.
       Inr (s\<lparr>annotations := anns\<rparr>)))"

definition GetCurrentAnnotation :: "Skeletonizer \<Rightarrow> Voxel \<Rightarrow> failure + Annotation" where
  "GetCurrentAnnotation s neighbour =
     (if HasAnnotation (annotations s) neighbour then ReadAnnotation (annotations s) neighbour
      else Inr default_Annotation)"

definition PropagateLabelToNeighbour ::
  "TernaryImage \<Rightarrow> Voxel \<Rightarrow> Annotation \<Rightarrow> Voxel \<Rightarrow> Skeletonizer \<Rightarrow> failure + Skeletonizer" where
  "PropagateLabelToNeighbour img origin origin_annotation neighbour s =
     (if \<not> IsObjectPoint img neighbour then Inr s
      else
        bind_fail (GetCurrentAnnotation s neighbour) (\<lambda>annotation.
          if status annotation = removed then Inr s
          else
            bind_fail (GetConcatenatedPathCost origin origin_annotation neighbour) (\<lambda>d.
              if d < distance annotation then
                (let old_key = (distance annotation, tag annotation, neighbour) in
                 bind_fail (UpdatePointPathCost origin origin_annotation neighbour annotation)
                   (\<lambda>annotation1.
                   (let (key, s1) = GetKey s d neighbour;
                        annotation2 = annotation1
                          \<lparr>contour_label := contour_label origin_annotation,
                           pixel_label := pixel_label origin_annotation,
                           point := point origin_annotation,
                           tag := fst (snd key)\<rparr>
                    in if status annotation2 \<noteq> inserted then
                         bind_fail (BinaryHeap_Insert (queue s1) key) (\<lambda>q.
                         bind_fail (AddPointAnnotation (annotations s1) neighbour
                                      (annotation2\<lparr>status := inserted\<rparr>)) (\<lambda>anns.
                           Inr (s1\<lparr>queue := q, annotations := anns\<rparr>)))
                       else
                         bind_fail (IncreasePriority_key (queue s1) old_key key) (\<lambda>q.
                         bind_fail (ModifyAnnotation (annotations s1) neighbour annotation2)
                           (\<lambda>anns.
                           Inr (s1\<lparr>queue := q, annotations := anns\<rparr>))))))
              else Inr s)))"

fun PropagateLabelToNeighbours ::
  "TernaryImage \<Rightarrow> Voxel \<Rightarrow> Annotation \<Rightarrow> Voxel list \<Rightarrow> Skeletonizer \<Rightarrow> failure + Skeletonizer" where
  "PropagateLabelToNeighbours img origin origin_annotation [] s = Inr s"
| "PropagateLabelToNeighbours img origin origin_annotation (neighbour # neighbours) s =
     (case PropagateLabelToNeighbour img origin origin_annotation neighbour s of
        Inl e \<Rightarrow> Inl e
      | Inr s' \<Rightarrow> PropagateLabelToNeighbours img origin origin_annotation neighbours s')"

definition PropagateLabelToNeighboursIfApplicable ::
  "TernaryImage \<Rightarrow> Voxel \<Rightarrow> Annotation \<Rightarrow> Skeletonizer \<Rightarrow> failure + Skeletonizer" where
  "PropagateLabelToNeighboursIfApplicable img p a s =
     PropagateLabelToNeighbours img p a (GetNeighbours p) s"

fun enqueue_seed_points :: "Voxel list \<Rightarrow> Skeletonizer \<Rightarrow> failure + Skeletonizer" where
  "enqueue_seed_points [] s = Inr s"
| "enqueue_seed_points (p # ps) s =
     (let (key, s1) = GetKey s 0 p in
      case BinaryHeap_Insert (queue s1) key of
        Inl e \<Rightarrow> Inl e
      | Inr q \<Rightarrow>
          (case InitialiseAnnotationOfSeedPoint (s1\<lparr>queue := q\<rparr>) p (fst (snd key)) of
             Inl e \<Rightarrow> Inl e
           | Inr s2 \<Rightarrow> enqueue_seed_points ps s2))"

text \<open>
  \<^verbatim>\<open>InitialiseAndEnqueueSeedPoints\<close>; the result is \<open>None\<close> when the computation of the
  contours does not return.
\<close>

definition InitialiseAndEnqueueSeedPoints :: "TernaryImage \<Rightarrow> Skeletonizer \<Rightarrow> (failure + Skeletonizer) option" where
  "InitialiseAndEnqueueSeedPoints img s =
     (case ComputeContours img (annotations s) of
        None \<Rightarrow> None
      | Some (anns, cc) \<Rightarrow>
          Some (enqueue_seed_points (labeled_points cc)
                  (s\<lparr>annotations := anns, contour_calculator := cc\<rparr>)))"

text \<open>
  \<^verbatim>\<open>ExecuteIftIterations\<close>: the first argument bounds the number of iterations of the
  \<^verbatim>\<open>while\<close> loop that are executed; the loop has ended when the queue of the result is
  empty.
\<close>

fun ExecuteIftIterations :: "TernaryImage \<Rightarrow> nat \<Rightarrow> Skeletonizer \<Rightarrow> failure + Skeletonizer" where
  "ExecuteIftIterations img 0 s = Inr s"
| "ExecuteIftIterations img (Suc n) s =
     (if \<not> HasElements (queue s) then Inr s
      else
        (case BinaryHeap_Remove (queue s) of
           Inl e \<Rightarrow> Inl e
         | Inr (key, q) \<Rightarrow>
             (case ReadAnnotation (annotations s) (snd (snd key)) of
                Inl e \<Rightarrow> Inl e
              | Inr a \<Rightarrow>
                  (case ModifyAnnotation (annotations s) (snd (snd key)) (a\<lparr>status := removed\<rparr>) of
                     Inl e \<Rightarrow> Inl e
                   | Inr anns \<Rightarrow>
                       (case PropagateLabelToNeighboursIfApplicable img (snd (snd key))
                               (a\<lparr>status := removed\<rparr>) (s\<lparr>queue := q, annotations := anns\<rparr>) of
                          Inl e \<Rightarrow> Inl e
                        | Inr s' \<Rightarrow> ExecuteIftIterations img n s')))))"

definition new_Skeletonizer :: Skeletonizer where
  "new_Skeletonizer =
     \<lparr>annotations = [], counter_value = 0,
      contour_calculator = \<lparr>maximum_pixel_label = 0, pixels_per_contour = [], labeled_points = []\<rparr>,
      queue = \<lparr>heap_elements = [], key_to_index = []\<rparr>\<rparr>"

definition ComputeSkeleton :: "TernaryImage \<Rightarrow> nat \<Rightarrow> (failure + Skeletonizer) option" where
  "ComputeSkeleton img iterations =
     (case InitialiseAndEnqueueSeedPoints img new_Skeletonizer of
        None \<Rightarrow> None
      | Some (Inl e) \<Rightarrow> Some (Inl e)
      | Some (Inr s) \<Rightarrow> Some (ExecuteIftIterations img iterations s))"




text \<open>
  The squared Euclidean distance of two voxels as the specification uses it, over the
  integers.
\<close>

definition squared_euclidean_distance :: "Voxel \<Rightarrow> Voxel \<Rightarrow> int" where
  "squared_euclidean_distance v b =
     (uint (GetCoordinate v 0) - uint (GetCoordinate b 0))\<^sup>2
     + (uint (GetCoordinate v 1) - uint (GetCoordinate b 1))\<^sup>2
     + (uint (GetCoordinate v 2) - uint (GetCoordinate b 2))\<^sup>2"

text \<open>
  Notions for stating the properties of the annotations.  \<open>squared_displacements\<close> is the
  sum of the squares of the three displacements, as an integer.  An annotation of the
  point \<open>p\<close> is proper when its distance is that sum (modulo \<open>2^32\<close>), its root point is a
  contour point of the image, and each displacement is at least the distance of \<open>p\<close> from
  the root along that axis and has a square that fits an \<^verbatim>\<open>int\<close>.  In \<open>annotations_ok\<close> the other annotations are those that still
  have the displacements of the default constructor; they belong to points that are not
  object points.
\<close>

definition squared_displacements :: "Annotation \<Rightarrow> int" where
  "squared_displacements a =
     (sint (displacements a ! 0))\<^sup>2 + (sint (displacements a ! 1))\<^sup>2
     + (sint (displacements a ! 2))\<^sup>2"

definition proper_annotation :: "TernaryImage \<Rightarrow> Voxel \<Rightarrow> Annotation \<Rightarrow> bool" where
  "proper_annotation img p a =
     (length (displacements a) = 3
      \<and> distance a = word_of_int (squared_displacements a)
      \<and> IsContourPoint img (point a)
      \<and> (\<forall>i < 3. \<bar>uint (GetCoordinate p i) - uint (GetCoordinate (point a) i)\<bar>
                    \<le> sint (displacements a ! i)
                  \<and> (sint (displacements a ! i))\<^sup>2 \<le> 2147483647))"

definition untouched_annotation :: "TernaryImage \<Rightarrow> Voxel \<Rightarrow> Annotation \<Rightarrow> bool" where
  "untouched_annotation img p a =
     (displacements a = [2147483647, 2147483647, 2147483647] \<and> \<not> IsObjectPoint img p)"

definition annotations_ok :: "TernaryImage \<Rightarrow> AnnotatedImage \<Rightarrow> bool" where
  "annotations_ok img anns =
     (\<forall>e \<in> set anns. untouched_annotation img (fst e) (snd e) \<or> proper_annotation img (fst e) (snd e))"


section \<open>The centerline router\<close>

text \<open>
  \<^verbatim>\<open>CenterlineSet\<close> is a class template over the graph type.  Of the annotated graph
  that holds the result of a traversal it calls \<^verbatim>\<open>HasVertex\<close> and the constant
  \<^verbatim>\<open>operator[]\<close>, and of an annotation \<^verbatim>\<open>HasFiniteDistance\<close>,
  \<^verbatim>\<open>Distance\<close>, \<^verbatim>\<open>HasPredecessor\<close> and \<^verbatim>\<open>Predecessor\<close>.  An annotated
  graph is given by its two operations, which may fail (in the flat-indexed graph
  \<^verbatim>\<open>HasVertex\<close> throws outside the arrays); an annotation by the values of its four
  accessors.  Keys of type \<open>'p\<close> are compared with \<^verbatim>\<open>operator==\<close>, which is the
  equality of \<open>'p\<close>.
\<close>

record ('p, 'd) PathAnnotation =
  HasFiniteDistance :: bool
  annotated_distance :: 'd
  HasPredecessor :: bool
  Predecessor :: 'p

record ('p, 'd) AnnotatedGraph =
  graph_HasVertex :: "'p \<Rightarrow> failure + bool"
  graph_at :: "'p \<Rightarrow> failure + ('p, 'd) PathAnnotation"

definition IsNotUsed :: "('p, 'd, 's) CenterlineSet \<Rightarrow> 'p \<Rightarrow> bool" where
  "IsNotUsed s pt = (pt \<notin> used_nodes s)"

definition MarkUsed :: "('p, 'd, 's) CenterlineSet \<Rightarrow> 'p \<Rightarrow> ('p, 'd, 's) CenterlineSet" where
  "MarkUsed s pt = s\<lparr>used_nodes := insert pt (used_nodes s)\<rparr>"

definition MarkAsBranch :: "('p, 'd, 's) CenterlineSet \<Rightarrow> 'p \<Rightarrow> ('p, 'd, 's) CenterlineSet" where
  "MarkAsBranch s pt = s\<lparr>branch_nodes := insert pt (branch_nodes s)\<rparr>"

text \<open>
  \<^verbatim>\<open>CenterlineSet::HandleNewNode\<close>.  The result is the returned value followed by the
  new values of the four reference parameters: the nodes of the builder, the
  centerlines, \<^verbatim>\<open>add_prev\<close> and \<^verbatim>\<open>is_building\<close>.
\<close>

definition HandleNewNode ::
  "('p, 'd, 's) CenterlineSet \<Rightarrow> ('p, 'd) CenterLineNode list \<Rightarrow> ('p, 'd) CenterLineNode list list
     \<Rightarrow> 'p \<Rightarrow> ('p, 'd) PathAnnotation \<Rightarrow> 'p \<Rightarrow> ('p, 'd) PathAnnotation \<Rightarrow> bool
     \<Rightarrow> bool \<times> ('p, 'd) CenterLineNode list \<times> ('p, 'd) CenterLineNode list list \<times> bool \<times> bool" where
  "HandleNewNode s builder centerlines pt annotation prev_pt prev_annotation is_building =
     (if IsNotUsed s pt then
        (True,
         (if \<not> is_building
          then builder @ [CenterLineNode prev_pt (annotated_distance prev_annotation)]
          else builder)
           @ [CenterLineNode pt (annotated_distance annotation)],
         centerlines, \<not> is_building, True)
      else if builder \<noteq> [] then
        (if is_building
         then (False, [],
               centerlines @ [builder @ [CenterLineNode pt (annotated_distance annotation)]],
               False, False)
         else (False, builder, centerlines, False, False))
      else (False, builder, centerlines, False, False))"

text \<open>
  \<^verbatim>\<open>CenterlineSet::GetSegments\<close> walks from the end point along the predecessors to the
  source.  The \<^verbatim>\<open>while\<close> loop runs as long as the current annotation has a
  predecessor, which is forever on a cycle of predecessors: the result is \<open>None\<close> then.
  The lookup of a predecessor that the graph does not hold throws; the method is
  \<^verbatim>\<open>noexcept\<close>, so the program is terminated with that failure.  The result is the set,
  in which nodes have been marked, and the new centerlines.
\<close>

partial_function (option) GetSegments_loop ::
  "('p, 'd) AnnotatedGraph \<Rightarrow> ('p, 'd, 's) CenterlineSet \<Rightarrow> ('p, 'd) CenterLineNode list
     \<Rightarrow> ('p, 'd) CenterLineNode list list \<Rightarrow> 'p \<Rightarrow> 'p \<Rightarrow> ('p, 'd) PathAnnotation
     \<Rightarrow> ('p, 'd) PathAnnotation \<Rightarrow> bool \<Rightarrow> bool
     \<Rightarrow> (failure + ('p, 'd, 's) CenterlineSet \<times> ('p, 'd) CenterLineNode list list) option" where
  "GetSegments_loop g s builder centerlines pt prev_pt annotation prev_annotation
       is_end_point is_building =
     (case HandleNewNode s builder centerlines pt annotation prev_pt prev_annotation
             is_building of
        (handled, builder', centerlines', add_prev, is_building') \<Rightarrow>
          if HasPredecessor annotation then
            (case graph_at g (Predecessor annotation) of
               Inl e \<Rightarrow> Some (Inl e)
             | Inr annotation' \<Rightarrow>
                 (let s1 = (if \<not> handled \<and> is_building \<and> \<not> is_building' \<and> \<not> is_end_point
                            then MarkAsBranch s pt else s);
                      s2 = (if add_prev then MarkAsBranch s1 prev_pt else s1)
                  in GetSegments_loop g (MarkUsed s2 pt) builder' centerlines'
                       (Predecessor annotation) pt annotation' annotation False is_building'))
          else if handled then
            Some (Inr (MarkUsed (if add_prev then MarkAsBranch s prev_pt else s) pt,
                       centerlines' @ [builder']))
          else Some (Inr (s, centerlines')))"

declare GetSegments_loop.simps [code]

definition GetSegments ::
  "('p, 'd) AnnotatedGraph \<Rightarrow> ('p, 'd, 's) CenterlineSet \<Rightarrow> 'p
     \<Rightarrow> (failure + ('p, 'd, 's) CenterlineSet \<times> ('p, 'd) CenterLineNode list list) option" where
  "GetSegments g s end_point =
     (case graph_at g end_point of
        Inl e \<Rightarrow> Some (Inl e)
      | Inr annotation \<Rightarrow>
          GetSegments_loop g s [] [] end_point end_point annotation annotation True True)"

definition AddPathsAndStatistics ::
  "(('p, 'd) CenterLineNode list \<Rightarrow> 's) \<Rightarrow> ('p, 'd, 's) CenterlineSet
     \<Rightarrow> ('p, 'd) CenterLineNode list list \<Rightarrow> ('p, 'd, 's) CenterlineSet" where
  "AddPathsAndStatistics stat s new_paths =
     s\<lparr>paths := paths s @ new_paths, statistics := statistics s @ map stat new_paths\<rparr>"

text \<open>
  \<^verbatim>\<open>CenterlineSet::AddSet(annotated_graph, graph, end_point)\<close>; the check of the
  centerline between \<^verbatim>\<open>#if defined(_VALIDATION)\<close> and \<^verbatim>\<open>#else\<close> only prints.
\<close>

definition AddSet ::
  "(('p, 'd) CenterLineNode list \<Rightarrow> 's) \<Rightarrow> ('p, 'd) AnnotatedGraph \<Rightarrow> 'p
     \<Rightarrow> ('p, 'd, 's) CenterlineSet \<Rightarrow> ('p, 'd, 's) CenterlineSet comp" where
  "AddSet stat g end_point s =
     bind_comp (Some (graph_HasVertex g end_point)) (\<lambda>has.
       if \<not> has then ret s
       else
         bind_comp (Some (graph_at g end_point)) (\<lambda>annotation.
           if \<not> HasFiniteDistance annotation then ret s
           else
             bind_comp (GetSegments g s end_point) (\<lambda>(s', new_paths).
               ret (AddPathsAndStatistics stat s' new_paths))))"

text \<open>
  \<^verbatim>\<open>CenterlineSet::AddSet(annotated_graph, graph, vertex_a, vertex_b)\<close>.  Whether the
  pair closes a cycle is decided by \<^verbatim>\<open>BuildLMpath\<close> and \<^verbatim>\<open>ValidateLMpath\<close>, which
  read the two graphs and the used nodes and change nothing; their verdict, which may be
  a failure or may never come, is the parameter \<open>valid\<close>.
\<close>

definition AddSet_pair ::
  "(('p, 'd) CenterLineNode list \<Rightarrow> 's) \<Rightarrow> (('p, 'd, 's) CenterlineSet \<Rightarrow> 'p \<Rightarrow> 'p \<Rightarrow> bool comp)
     \<Rightarrow> ('p, 'd) AnnotatedGraph \<Rightarrow> 'p \<times> 'p
     \<Rightarrow> ('p, 'd, 's) CenterlineSet \<Rightarrow> ('p, 'd, 's) CenterlineSet comp" where
  "AddSet_pair stat valid g pair s =
     bind_comp (valid s (fst pair) (snd pair)) (\<lambda>is_valid.
       if \<not> is_valid then ret s
       else
         bind_comp (GetSegments g s (fst pair)) (\<lambda>(s1, paths_a).
         bind_comp (GetSegments g s1 (snd pair)) (\<lambda>(s2, paths_b).
           ret (AddPathsAndStatistics stat (AddPathsAndStatistics stat s2 paths_a) paths_b))))"

text \<open>
  \<^verbatim>\<open>CenterlineCalculator\<close> is a class template over the single-source shortest-path
  algorithm.  Of the algorithm object, whose state has the type \<open>'alg\<close>, it calls
  \<^verbatim>\<open>ExecuteGradient\<close>, which returns whether the traversal has been executed and
  changes the object, \<^verbatim>\<open>GetResult\<close> and \<^verbatim>\<open>GetEndCandidatesList\<close>.
\<close>

record ('p, 'd, 'alg) Algorithm =
  ExecuteGradient :: "'p \<Rightarrow> 'alg \<Rightarrow> (bool \<times> 'alg) comp"
  GetResult :: "'alg \<Rightarrow> ('p, 'd) AnnotatedGraph"
  GetEndCandidatesList :: "'alg \<Rightarrow> ('p \<times> 'p) list"

text \<open>
  \<^verbatim>\<open>CenterlineCalculator::ExecuteSingleComputation\<close>: when the traversal has been
  executed, the centerlines that end in the end points and those of the recorded cycle
  candidates are added to the set, all of them read from the result of this traversal.
\<close>

definition ExecuteSingleComputation ::
  "('p, 'd, 'alg) Algorithm \<Rightarrow> (('p, 'd) CenterLineNode list \<Rightarrow> 's)
     \<Rightarrow> (('p, 'd, 's) CenterlineSet \<Rightarrow> 'p \<Rightarrow> 'p \<Rightarrow> bool comp)
     \<Rightarrow> 'alg \<Rightarrow> 'p \<Rightarrow> ('p, 'd, 's) CenterlineSet \<Rightarrow> 'p list
     \<Rightarrow> (bool \<times> 'alg \<times> ('p, 'd, 's) CenterlineSet) comp" where
  "ExecuteSingleComputation algorithm stat valid alg source_vertex centerlines end_points =
     bind_comp (ExecuteGradient algorithm source_vertex alg) (\<lambda>(executed, alg').
       if \<not> executed then ret (False, alg', centerlines)
       else
         bind_comp (for_each end_points (AddSet stat (GetResult algorithm alg')) centerlines)
           (\<lambda>centerlines1.
         bind_comp (for_each (GetEndCandidatesList algorithm alg')
                      (AddSet_pair stat valid (GetResult algorithm alg')) centerlines1)
           (\<lambda>centerlines2. ret (True, alg', centerlines2))))"

text \<open>
  The loop of \<^verbatim>\<open>ComputeForSources\<close> over the source points:
  \<^verbatim>\<open>if (executed) break;\<close> leaves it after the first executed traversal.
\<close>

fun sources_loop ::
  "('p, 'd, 'alg) Algorithm \<Rightarrow> (('p, 'd) CenterLineNode list \<Rightarrow> 's)
     \<Rightarrow> (('p, 'd, 's) CenterlineSet \<Rightarrow> 'p \<Rightarrow> 'p \<Rightarrow> bool comp)
     \<Rightarrow> 'p list \<Rightarrow> 'p list \<Rightarrow> 'alg \<Rightarrow> ('p, 'd, 's) CenterlineSet
     \<Rightarrow> ('alg \<times> ('p, 'd, 's) CenterlineSet) comp" where
  "sources_loop algorithm stat valid end_points [] alg centerlines = ret (alg, centerlines)"
| "sources_loop algorithm stat valid end_points (source_point # rest) alg centerlines =
     bind_comp (ExecuteSingleComputation algorithm stat valid alg source_point centerlines
                  end_points)
       (\<lambda>(executed, alg', centerlines').
          if executed then ret (alg', centerlines')
          else sources_loop algorithm stat valid end_points rest alg' centerlines')"

text \<open>
  \<^verbatim>\<open>CenterlineCalculator::ComputeForSources\<close>: the set starts empty, and after the loop
  it is split at the branch points.  The result is the state of the algorithm object
  together with the returned set.
\<close>

definition ComputeForSources ::
  "('p, 'd, 'alg) Algorithm \<Rightarrow> (('p, 'd) CenterLineNode list \<Rightarrow> 's)
     \<Rightarrow> (('p, 'd, 's) CenterlineSet \<Rightarrow> 'p \<Rightarrow> 'p \<Rightarrow> bool comp)
     \<Rightarrow> 'p list \<Rightarrow> 'p list \<Rightarrow> 'alg \<Rightarrow> ('alg \<times> ('p, 'd, 's) CenterlineSet) comp" where
  "ComputeForSources algorithm stat valid source_points end_points alg =
     bind_comp (sources_loop algorithm stat valid end_points source_points alg
                  \<lparr>paths = [], statistics = [], used_nodes = {}, branch_nodes = {}\<rparr>)
       (\<lambda>(alg', centerlines).
          case SplitByBranchPoints stat centerlines of
            None \<Rightarrow> throw UndefinedBehaviour
          | Some centerlines' \<Rightarrow> ret (alg', centerlines'))"

text \<open>
  \<^verbatim>\<open>Dijkstra::ExecuteGradient\<close> (dijkstra.h), the algorithm the router is used with,
  with the handle-based binary heap as its queue.  \<^verbatim>\<open>Dijkstra\<close> is a class template
  over the graph, the annotated graph and the calculators; what it does with them
  is given by the fields of \<open>DijkstraParts\<close>: \<^verbatim>\<open>graph_.HasVertex\<close>, the key that
  \<^verbatim>\<open>Initialise\<close> inserts into the queue for the source, the other statements of
  \<^verbatim>\<open>Initialise\<close> (which get the handle returned by \<^verbatim>\<open>Insert\<close>),
  \<^verbatim>\<open>annotated_graph_[key].SetRemoved()\<close>, and \<^verbatim>\<open>RelaxNeighboursGradient\<close>, which
  changes the queue and the object.
\<close>

record ('p, 'k, 'alg) DijkstraParts =
  graph_has :: "'p \<Rightarrow> failure + bool"
  source_key :: "'p \<Rightarrow> 'k"
  Initialise_rest :: "'p \<Rightarrow> nat \<Rightarrow> 'alg \<Rightarrow> failure + 'alg"
  SetRemoved :: "'k \<Rightarrow> 'alg \<Rightarrow> failure + 'alg"
  RelaxNeighboursGradient ::
    "'k \<Rightarrow> 'k HandleBasedBinaryHeap \<times> 'alg \<Rightarrow> ('k HandleBasedBinaryHeap \<times> 'alg) comp"

definition Initialise ::
  "('p, 'k, 'alg) DijkstraParts \<Rightarrow> ('k \<Rightarrow> 'k \<Rightarrow> bool) \<Rightarrow> 'k \<Rightarrow> 'p \<Rightarrow> 'alg
     \<Rightarrow> failure + 'k HandleBasedBinaryHeap \<times> 'alg" where
  "Initialise D IsLess maximum_key source alg =
     (case Insert IsLess maximum_key empty_heap (source_key D source) of
        Inl e \<Rightarrow> Inl e
      | Inr (handle, q) \<Rightarrow>
          (case Initialise_rest D source handle alg of
             Inl e \<Rightarrow> Inl e
           | Inr alg' \<Rightarrow> Inr (q, alg')))"

partial_function (option) traversal_loop ::
  "('p, 'k, 'alg) DijkstraParts \<Rightarrow> ('k \<Rightarrow> 'k \<Rightarrow> bool) \<Rightarrow> 'k HandleBasedBinaryHeap \<times> 'alg
     \<Rightarrow> (failure + 'alg) option" where
  "traversal_loop D IsLess st =
     (if IsEmpty (fst st) then Some (Inr (snd st))
      else
        (case Remove IsLess (fst st) of
           Inl e \<Rightarrow> Some (Inl e)
         | Inr (current_vertex, q') \<Rightarrow>
             (case SetRemoved D current_vertex (snd st) of
                Inl e \<Rightarrow> Some (Inl e)
              | Inr alg' \<Rightarrow>
                  (case RelaxNeighboursGradient D current_vertex (q', alg') of
                     None \<Rightarrow> None
                   | Some (Inl e) \<Rightarrow> Some (Inl e)
                   | Some (Inr st') \<Rightarrow> traversal_loop D IsLess st'))))"

declare traversal_loop.simps [code]

definition Dijkstra_ExecuteGradient ::
  "('p, 'k, 'alg) DijkstraParts \<Rightarrow> ('k \<Rightarrow> 'k \<Rightarrow> bool) \<Rightarrow> 'k \<Rightarrow> 'p \<Rightarrow> 'alg
     \<Rightarrow> (bool \<times> 'alg) comp" where
  "Dijkstra_ExecuteGradient D IsLess maximum_key source alg =
     (case graph_has D source of
        Inl e \<Rightarrow> Some (Inl e)
      | Inr False \<Rightarrow> Some (Inr (False, alg))
      | Inr True \<Rightarrow>
          (case Initialise D IsLess maximum_key source alg of
             Inl e \<Rightarrow> Some (Inl e)
           | Inr st \<Rightarrow>
               (case traversal_loop D IsLess st of
                  None \<Rightarrow> None
                | Some (Inl e) \<Rightarrow> Some (Inl e)
                | Some (Inr alg') \<Rightarrow> Some (Inr (True, alg')))))"









section \<open>Properties of the centerline set\<close>

lemma scan_path_defined:
  "\<forall>i \<in> set is. i < length path \<Longrightarrow> scan_path B path is \<noteq> None"
  by (induction "is") (auto simp: Centerline_split_def split: option.splits)

lemma scan_path_none:
  "scan_path B path is = Some None \<Longrightarrow> i \<in> set is \<Longrightarrow> i < length path \<Longrightarrow>
     Point (path ! i) \<in> B \<Longrightarrow> i = 0 \<or> i = length path - 1"
  by (induction "is") (auto simp: Centerline_split_def split: if_splits option.splits)

lemma scan_path_first:
  "scan_path B path is = Some (Some (p', new)) \<Longrightarrow>
     \<exists>pre i post. is = pre @ i # post \<and> 0 < i \<and> i < length path - 1
        \<and> p' = take (i + 1) path \<and> new = drop i path
        \<and> (\<forall>k \<in> set pre. k < length path \<longrightarrow> Point (path ! k) \<in> B \<longrightarrow> k = 0 \<or> k = length path - 1)"
proof (induction "is")
  case Nil
  then show ?case by simp
next
  case (Cons a "is")
  show ?case
  proof (cases "Point (path ! a) \<in> B \<and> 0 < a \<and> a < length path - 1")
    case True
    with Cons.prems have "p' = take (a + 1) path \<and> new = drop a path"
      by (auto simp: Centerline_split_def split: if_splits)
    with True show ?thesis by (intro exI[of _ "[]"] exI[of _ a] exI[of _ "is"]) simp
  next
    case False
    with Cons.prems have rest: "scan_path B path is = Some (Some (p', new))"
      by (auto simp: Centerline_split_def split: if_splits option.splits)
    from Cons.IH[OF rest] obtain pre i post where
      h: "is = pre @ i # post" "0 < i" "i < length path - 1"
         "p' = take (i + 1) path" "new = drop i path"
         "\<forall>k \<in> set pre. k < length path \<longrightarrow> Point (path ! k) \<in> B \<longrightarrow> k = 0 \<or> k = length path - 1"
      by blast
    from False h show ?thesis
      by (intro exI[of _ "a # pre"] exI[of _ i] exI[of _ post]) auto
  qed
qed

lemma upt_split_mid: "[0..<n] = pre @ i # post \<Longrightarrow> pre = [0..<i]"
proof -
  assume a: "[0..<n] = pre @ i # post"
  then have "length pre < n" by (metis length_upt length_append length_Cons add_Suc_right diff_zero less_add_Suc1)
  have "[0..<n] ! length pre = i" using a by simp
  then have i: "i = length pre" using \<open>length pre < n\<close> by simp
  have "take (length pre) [0..<n] = pre" using a by simp
  then show ?thesis using i \<open>length pre < n\<close> by (simp add: take_upt)
qed

lemma scan_path_none_ok:
  assumes "scan_path B path [0..<length path] = Some None"
  shows "no_internal_branch B path"
  unfolding no_internal_branch_def
proof (intro allI impI)
  fix i assume a: "0 < i \<and> i < length path - 1"
  then have "i < length path" "i \<noteq> 0" "i \<noteq> length path - 1" by linarith+
  then show "Point (path ! i) \<notin> B"
    using scan_path_none[OF assms, of i] by auto
qed

lemma scan_path_split_ok:
  assumes "scan_path B path [0..<length path] = Some (Some (p', new))"
  shows "no_internal_branch B p'"
proof -
  from scan_path_first[OF assms] obtain pre i post where
    h: "[0..<length path] = pre @ i # post" "0 < i" "i < length path - 1"
       "p' = take (i + 1) path"
       "\<forall>k \<in> set pre. k < length path \<longrightarrow> Point (path ! k) \<in> B \<longrightarrow> k = 0 \<or> k = length path - 1"
    by blast
  from h(1) have pre: "pre = [0..<i]" by (rule upt_split_mid)
  show ?thesis
    unfolding no_internal_branch_def
  proof (intro allI impI)
    fix k assume k: "0 < k \<and> k < length p' - 1"
    with h(3,4) have ki: "k < i" by simp
    with pre have "k \<in> set pre" by simp
    with h(5) h(3) ki k have "Point (path ! k) \<notin> B" by auto
    with h(4) ki show "Point (p' ! k) \<notin> B" by simp
  qed
qed

lemma split_loop_defined: "split_loop B j ps \<noteq> None"
proof (induction B j ps rule: split_loop.induct)
  case (1 B j ps)
  show ?case
  proof (cases "j \<ge> length ps")
    case True
    then show ?thesis by (simp add: split_loop.simps)
  next
    case False
    have d: "scan_path B (ps ! j) [0..<length (ps ! j)] \<noteq> None"
      by (rule scan_path_defined) simp
    show ?thesis
      using False d 1 by (subst split_loop.simps) (auto split: option.splits)
  qed
qed

lemma split_loop_invariant:
  "split_loop B j ps = Some ps' \<Longrightarrow> \<forall>k<j. k < length ps \<longrightarrow> no_internal_branch B (ps ! k) \<Longrightarrow>
     \<forall>c \<in> set ps'. no_internal_branch B c"
proof (induction B j ps rule: split_loop.induct)
  case (1 B j ps)
  show ?case
  proof (cases "j \<ge> length ps")
    case True
    with "1.prems" have "ps' = ps" by (simp add: split_loop.simps)
    with True "1.prems"(2) show ?thesis by (auto simp: in_set_conv_nth)
  next
    case False
    then have j: "j < length ps" by simp
    consider (none) "scan_path B (ps ! j) [0..<length (ps ! j)] = Some None"
      | (split) p' new where "scan_path B (ps ! j) [0..<length (ps ! j)] = Some (Some (p', new))"
      | (undef) "scan_path B (ps ! j) [0..<length (ps ! j)] = None"
      by (metis option.exhaust surj_pair)
    then show ?thesis
    proof cases
      case none
      with "1.prems"(1) j have r: "split_loop B (j + 1) ps = Some ps'" by (simp add: split_loop.simps)
      have "\<forall>k<j + 1. k < length ps \<longrightarrow> no_internal_branch B (ps ! k)"
        using "1.prems"(2) scan_path_none_ok[OF none] by (auto simp: less_Suc_eq)
      with "1.IH"(1) False none r show ?thesis by blast
    next
      case split
      with "1.prems"(1) j have r: "split_loop B (j + 1) (ps[j := p'] @ [new]) = Some ps'" by (simp add: split_loop.simps)
      have "\<forall>k<j + 1. k < length (ps[j := p'] @ [new]) \<longrightarrow> no_internal_branch B ((ps[j := p'] @ [new]) ! k)"
        using "1.prems"(2) scan_path_split_ok[OF split] j
        by (auto simp: less_Suc_eq nth_append nth_list_update)
      with "1.IH"(2) False split r show ?thesis by blast
    next
      case undef
      with "1.prems"(1) j show ?thesis by (simp add: split_loop.simps)
    qed
  qed
qed


text \<open>
  C8.  SplitByBranchPoints always returns, and afterwards no centerline of the set has a
  recorded branch point at an internal position: branch points occur only at the first or
  the last node.
\<close>

theorem SplitByBranchPoints_no_internal_branch:
  "\<exists>s'. SplitByBranchPoints stat s = Some s' \<and>
     (\<forall>c \<in> set (paths s'). \<forall>i. 0 < i \<and> i < length c - 1 \<longrightarrow> \<not> IsBranch s' (Point (c ! i)))"
proof -
  obtain ps where ps: "split_loop (branch_nodes s) 0 (paths s) = Some ps"
    using split_loop_defined[of "branch_nodes s" 0 "paths s"] by auto
  then have "\<forall>c \<in> set ps. no_internal_branch (branch_nodes s) c"
    by (rule split_loop_invariant) simp
  with ps show ?thesis
    by (simp add: SplitByBranchPoints_def IsBranch_def no_internal_branch_def)
qed

theorem SplitByBranchPoints_no_internal_branch_witness:
  "SplitByBranchPoints length
     \<lparr>paths = [[CenterLineNode (0::nat) (0::nat), CenterLineNode 1 0, CenterLineNode 2 0,
                 CenterLineNode 3 0, CenterLineNode 4 0]],
      statistics = [], used_nodes = {}, branch_nodes = {2}\<rparr>
   = Some \<lparr>paths = [[CenterLineNode 0 0, CenterLineNode 1 0, CenterLineNode 2 0],
                    [CenterLineNode 2 0, CenterLineNode 3 0, CenterLineNode 4 0]],
           statistics = [3, 3], used_nodes = {}, branch_nodes = {2}\<rparr>
   \<and> (0::nat) < 1 \<and> (1::nat) < length [CenterLineNode (0::nat) (0::nat), CenterLineNode 1 0, CenterLineNode 2 0] - 1
   \<and> \<not> IsBranch \<lparr>paths = [[CenterLineNode (0::nat) (0::nat), CenterLineNode 1 0, CenterLineNode 2 0],
                    [CenterLineNode 2 0, CenterLineNode 3 0, CenterLineNode 4 0]],
           statistics = [3::nat, 3], used_nodes = {}, branch_nodes = {2}\<rparr>
        (Point ([CenterLineNode (0::nat) (0::nat), CenterLineNode 1 0, CenterLineNode 2 0] ! 1))"
proof -
  let ?s0 = "\<lparr>paths = [[CenterLineNode (0::nat) (0::nat), CenterLineNode 1 0, CenterLineNode 2 0,
                 CenterLineNode 3 0, CenterLineNode 4 0]],
      statistics = [], used_nodes = {}, branch_nodes = {2}\<rparr> :: (nat, nat, nat) CenterlineSet"
  let ?c = "[CenterLineNode (0::nat) (0::nat), CenterLineNode 1 0, CenterLineNode 2 0]"
  let ?s1 = "\<lparr>paths = [?c, [CenterLineNode 2 0, CenterLineNode 3 0, CenterLineNode 4 0]],
           statistics = [3::nat, 3], used_nodes = {}, branch_nodes = {2}\<rparr>"
  have run: "SplitByBranchPoints length ?s0 = Some ?s1"
    by (simp add: SplitByBranchPoints_def split_loop.simps Centerline_split_def)
  from SplitByBranchPoints_no_internal_branch[of length ?s0] obtain s' where
    s': "SplitByBranchPoints length ?s0 = Some s'"
    and nb: "\<forall>c \<in> set (paths s'). \<forall>i. 0 < i \<and> i < length c - 1 \<longrightarrow> \<not> IsBranch s' (Point (c ! i))"
    by blast
  from s' run have eq: "s' = ?s1" by simp
  have "?c \<in> set (paths ?s1)" by simp
  with nb eq have "\<not> IsBranch ?s1 (Point (?c ! 1))" by (metis (no_types, lifting) One_nat_def diff_Suc_1 length_Cons lessI list.size(3) zero_less_one)
  with run show ?thesis by simp
qed


section \<open>Properties of the graphs and their builders\<close>

lemma linear_index_inj:
  fixes x y z x' y' z' a b :: nat
  assumes "x < a" "x' < a" "y < b" "y' < b"
    and eq: "x + a * y + a * b * z = x' + a * y' + a * b * z'"
  shows "x = x' \<and> y = y' \<and> z = z'"
proof -
  have e: "x + a * (y + b * z) = x' + a * (y' + b * z')"
    using eq by (simp add: algebra_simps)
  have "(x + a * (y + b * z)) mod a = x" "(x' + a * (y' + b * z')) mod a = x'"
    using assms by simp_all
  with e have x: "x = x'" by metis
  have "(x + a * (y + b * z)) div a = y + b * z" "(x' + a * (y' + b * z')) div a = y' + b * z'"
    using assms by simp_all
  with e have e2: "y + b * z = y' + b * z'" by metis
  have "(y + b * z) mod b = y" "(y' + b * z') mod b = y'" using assms by simp_all
  with e2 have y: "y = y'" by metis
  have "(y + b * z) div b = z" "(y' + b * z') div b = z'" using assms by simp_all
  with e2 have "z = z'" by metis
  with x y show ?thesis by simp
qed

lemma linear_index_bound:
  fixes x y z a b c :: nat
  assumes "x < a" "y < b" "z < c"
  shows "x + a * y + a * b * z < a * b * c"
proof -
  have "x + a * y < a * (y + 1)" using assms by simp
  also have "\<dots> \<le> a * b" using assms by (intro mult_le_mono2) simp
  finally have 1: "x + a * y < a * b" .
  then have "x + a * y + a * b * z < a * b * (z + 1)" by simp
  also have "\<dots> \<le> a * b * c" using assms by (intro mult_le_mono2) simp
  finally show ?thesis .
qed

lemma in_bounds_unat:
  "\<not> IsOffLimitsPoint img (x, y, z) \<longleftrightarrow>
     unat x < unat (sizes img ! 0) \<and> unat y < unat (sizes img ! 1) \<and> unat z < unat (sizes img ! 2)"
  by (auto simp: IsOffLimitsPoint_def word_less_nat_alt word_le_nat_alt not_le)

lemma ConvertToLinearIndex_inj:
  assumes "\<not> IsOffLimitsPoint img p" "\<not> IsOffLimitsPoint img q"
    and "ConvertToLinearIndex img p = ConvertToLinearIndex img q"
  shows "p = q"
proof -
  obtain x y z where p: "p = (x, y, z)" by (cases p) auto
  obtain x' y' z' where q: "q = (x', y', z')" by (cases q) auto
  from assms(1,2) p q have b: "unat x < unat (sizes img ! 0)" "unat x' < unat (sizes img ! 0)"
     "unat y < unat (sizes img ! 1)" "unat y' < unat (sizes img ! 1)"
    by (simp_all add: in_bounds_unat)
  from assms(3) p q have "unat x + unat (sizes img ! 0) * unat y + unat (sizes img ! 0) * unat (sizes img ! 1) * unat z
      = unat x' + unat (sizes img ! 0) * unat y' + unat (sizes img ! 0) * unat (sizes img ! 1) * unat z'"
    by (simp add: ConvertToLinearIndex_def)
  from linear_index_inj[OF b this] p q show ?thesis by (simp add: word_unat_eq_iff)
qed

lemma ConvertToLinearIndex_bound:
  assumes "\<not> IsOffLimitsPoint img p"
  shows "ConvertToLinearIndex img p < GetTotalSize img"
proof -
  obtain x y z where p: "p = (x, y, z)" by (cases p) auto
  from assms p show ?thesis
    by (simp add: in_bounds_unat ConvertToLinearIndex_def GetTotalSize_def linear_index_bound)
qed

lemma IsObjectPoint_in_bounds: "IsObjectPoint img p \<Longrightarrow> \<not> IsOffLimitsPoint img p"
  by (auto simp: IsObjectPoint_def split: if_splits)

lemma MemoryGraph_Build_loop_keep:
  "vs p \<noteq> None \<Longrightarrow> MemoryGraph_Build_loop original img vs p = vs p"
  by (induction original img vs rule: MemoryGraph_Build_loop.induct) auto

lemma MemoryGraph_Build_loop_entry:
  "(p, a) \<in> set img \<Longrightarrow> distinct (map fst img) \<Longrightarrow> IsObjectPoint original p \<Longrightarrow> vs p = None \<Longrightarrow>
     MemoryGraph_Build_loop original img vs p
       = Some (Vertex p (real (unat (distance a))), default_VertexAnnotation)"
proof (induction original img vs rule: MemoryGraph_Build_loop.induct)
  case (1 original vertex_set)
  then show ?case by simp
next
  case (2 original q b rest vertex_set)
  show ?case
  proof (cases "q = p")
    case True
    with 2(3,4) have "b = a" by (auto simp: image_iff)
    with True 2(5,6) show ?thesis by (simp add: MemoryGraph_Build_loop_keep)
  next
    case False
    with 2 show ?thesis by auto
  qed
qed

lemma SpeedGraph_Build_loop_ok:
  "length vs = GetTotalSize original \<Longrightarrow> length flags = GetTotalSize original \<Longrightarrow>
   distinct (map fst img) \<Longrightarrow>
   \<exists>vs' flags'. SpeedGraph_Build_loop original img (vs, flags) = Inr (vs', flags')
     \<and> length vs' = GetTotalSize original \<and> length flags' = GetTotalSize original
     \<and> (\<forall>e \<in> set img. IsObjectPoint original (fst e) \<longrightarrow>
           vs' ! ConvertToLinearIndex original (fst e)
             = (Vertex (fst e) (real (unat (distance (snd e)))), default_VertexAnnotation)
           \<and> flags' ! ConvertToLinearIndex original (fst e))
     \<and> (\<forall>i. (\<forall>e \<in> set img. IsObjectPoint original (fst e) \<longrightarrow> ConvertToLinearIndex original (fst e) \<noteq> i)
           \<longrightarrow> vs' ! i = vs ! i \<and> flags' ! i = flags ! i)"
proof (induction img arbitrary: vs flags)
  case Nil
  then show ?case by simp
next
  case (Cons e rest)
  obtain p a where e: "e = (p, a)" by (cases e) auto
  from Cons.prems have d: "distinct (map fst rest)" and pn: "p \<notin> fst ` set rest"
    by (auto simp: e)
  show ?case
  proof (cases "IsObjectPoint original p")
    case False
    from Cons.IH[OF Cons.prems(1,2) d] obtain vs' flags' where
      h: "SpeedGraph_Build_loop original rest (vs, flags) = Inr (vs', flags')"
         "length vs' = GetTotalSize original" "length flags' = GetTotalSize original"
         "\<forall>e \<in> set rest. IsObjectPoint original (fst e) \<longrightarrow>
           vs' ! ConvertToLinearIndex original (fst e)
             = (Vertex (fst e) (real (unat (distance (snd e)))), default_VertexAnnotation)
           \<and> flags' ! ConvertToLinearIndex original (fst e)"
         "\<forall>i. (\<forall>e \<in> set rest. IsObjectPoint original (fst e) \<longrightarrow> ConvertToLinearIndex original (fst e) \<noteq> i)
           \<longrightarrow> vs' ! i = vs ! i \<and> flags' ! i = flags ! i"
      by blast
    have run: "SpeedGraph_Build_loop original (e # rest) (vs, flags) = Inr (vs', flags')"
      using False h(1) e by (simp add: Let_def)
    have ent: "\<forall>e' \<in> set (e # rest). IsObjectPoint original (fst e') \<longrightarrow>
           vs' ! ConvertToLinearIndex original (fst e')
             = (Vertex (fst e') (real (unat (distance (snd e')))), default_VertexAnnotation)
           \<and> flags' ! ConvertToLinearIndex original (fst e')"
      using h(4) False e by simp
    have frame: "\<forall>i. (\<forall>e' \<in> set (e # rest). IsObjectPoint original (fst e') \<longrightarrow> ConvertToLinearIndex original (fst e') \<noteq> i)
           \<longrightarrow> vs' ! i = vs ! i \<and> flags' ! i = flags ! i"
      using h(5) by simp
    from run h(2,3) ent frame show ?thesis by blast
  next
    case True
    let ?i = "ConvertToLinearIndex original p"
    let ?vs = "vs[?i := (Vertex p (real (unat (distance a))), default_VertexAnnotation)]"
    let ?fl = "flags[?i := True]"
    from True have ib: "?i < GetTotalSize original"
      by (simp add: ConvertToLinearIndex_bound IsObjectPoint_in_bounds)
    have l: "length ?vs = GetTotalSize original" "length ?fl = GetTotalSize original"
      using Cons.prems by simp_all
    from Cons.IH[OF l d] obtain vs' flags' where
      h: "SpeedGraph_Build_loop original rest (?vs, ?fl) = Inr (vs', flags')"
         "length vs' = GetTotalSize original" "length flags' = GetTotalSize original"
         "\<forall>e \<in> set rest. IsObjectPoint original (fst e) \<longrightarrow>
           vs' ! ConvertToLinearIndex original (fst e)
             = (Vertex (fst e) (real (unat (distance (snd e)))), default_VertexAnnotation)
           \<and> flags' ! ConvertToLinearIndex original (fst e)"
         "\<forall>i. (\<forall>e \<in> set rest. IsObjectPoint original (fst e) \<longrightarrow> ConvertToLinearIndex original (fst e) \<noteq> i)
           \<longrightarrow> vs' ! i = ?vs ! i \<and> flags' ! i = ?fl ! i"
      by blast
    have run: "SpeedGraph_Build_loop original (e # rest) (vs, flags) = Inr (vs', flags')"
      using True ib Cons.prems(1,2) h(1) e by (simp add: Let_def)
    have noother: "\<forall>e' \<in> set rest. IsObjectPoint original (fst e') \<longrightarrow> ConvertToLinearIndex original (fst e') \<noteq> ?i"
    proof (intro ballI impI)
      fix e' assume qb: "e' \<in> set rest" "IsObjectPoint original (fst e')"
      with pn have "fst e' \<noteq> p" by blast
      then show "ConvertToLinearIndex original (fst e') \<noteq> ?i"
        using ConvertToLinearIndex_inj[of original "fst e'" p] qb True IsObjectPoint_in_bounds
        by blast
    qed
    with h(5) have at_i: "vs' ! ?i = ?vs ! ?i \<and> flags' ! ?i = ?fl ! ?i" by blast
    have head: "vs' ! ?i = (Vertex p (real (unat (distance a))), default_VertexAnnotation) \<and> flags' ! ?i"
      using at_i ib Cons.prems(1,2) by simp
    have frame: "\<forall>i. (\<forall>e' \<in> set (e # rest). IsObjectPoint original (fst e') \<longrightarrow> ConvertToLinearIndex original (fst e') \<noteq> i)
           \<longrightarrow> vs' ! i = vs ! i \<and> flags' ! i = flags ! i"
    proof (intro allI impI)
      fix i assume asm: "\<forall>e' \<in> set (e # rest). IsObjectPoint original (fst e') \<longrightarrow> ConvertToLinearIndex original (fst e') \<noteq> i"
      with True e have ne: "?i \<noteq> i" by simp
      from asm have "\<forall>e' \<in> set rest. IsObjectPoint original (fst e') \<longrightarrow> ConvertToLinearIndex original (fst e') \<noteq> i" by simp
      with h(5) have "vs' ! i = ?vs ! i \<and> flags' ! i = ?fl ! i" by blast
      with ne show "vs' ! i = vs ! i \<and> flags' ! i = flags ! i" by simp
    qed
    have ent: "\<forall>e' \<in> set (e # rest). IsObjectPoint original (fst e') \<longrightarrow>
           vs' ! ConvertToLinearIndex original (fst e')
             = (Vertex (fst e') (real (unat (distance (snd e')))), default_VertexAnnotation)
           \<and> flags' ! ConvertToLinearIndex original (fst e')"
      using h(4) head e by simp
    from run h(2,3) ent frame show ?thesis by blast
  qed
qed

text \<open>
  C4 (as amended).  For every entry of the annotated image whose voxel is an object (pore)
  point, both builders produce a vertex at that voxel whose property value is the annotated
  squared distance itself, converted to a double; no square root is taken.
\<close>

theorem Build_property_value:
  assumes "(p, a) \<in> set img" and "distinct (map fst img)" and "IsObjectPoint original p"
  shows "(\<exists>k ann. MemoryGraph_Build img original p = Some (k, ann) \<and> vPoint k = p
            \<and> PropertyValue k = real (unat (distance a)))
       \<and> (\<exists>g. SpeedGraph_Build img original = Inr g
            \<and> has_annotation_list g ! ConvertToLinearIndex original p
            \<and> vPoint (fst (vertex_set g ! ConvertToLinearIndex original p)) = p
            \<and> PropertyValue (fst (vertex_set g ! ConvertToLinearIndex original p))
                = real (unat (distance a)))"
proof
  show "\<exists>k ann. MemoryGraph_Build img original p = Some (k, ann) \<and> vPoint k = p
            \<and> PropertyValue k = real (unat (distance a))"
    using MemoryGraph_Build_loop_entry[OF assms, of Map.empty]
    by (simp add: MemoryGraph_Build_def)
next
  let ?n = "GetTotalSize original"
  from SpeedGraph_Build_loop_ok[of "replicate ?n (Vertex (0, 0, 0) 0, default_VertexAnnotation)"
      original "replicate ?n False" img] assms(2)
  obtain vs' flags' where
    h: "SpeedGraph_Build_loop original img
          (replicate ?n (Vertex (0, 0, 0) 0, default_VertexAnnotation), replicate ?n False)
        = Inr (vs', flags')"
       "\<forall>e \<in> set img. IsObjectPoint original (fst e) \<longrightarrow>
           vs' ! ConvertToLinearIndex original (fst e)
             = (Vertex (fst e) (real (unat (distance (snd e)))), default_VertexAnnotation)
           \<and> flags' ! ConvertToLinearIndex original (fst e)"
    by auto
  from h(2) assms(1,3) have
    "vs' ! ConvertToLinearIndex original p
       = (Vertex p (real (unat (distance a))), default_VertexAnnotation)
     \<and> flags' ! ConvertToLinearIndex original p"
    by force
  with h(1) show "\<exists>g. SpeedGraph_Build img original = Inr g
            \<and> has_annotation_list g ! ConvertToLinearIndex original p
            \<and> vPoint (fst (vertex_set g ! ConvertToLinearIndex original p)) = p
            \<and> PropertyValue (fst (vertex_set g ! ConvertToLinearIndex original p))
                = real (unat (distance a))"
    by (simp add: SpeedGraph_Build_def)
qed

theorem Build_property_value_witness:
  "((0, 0, 0), default_Annotation\<lparr>distance := 4\<rparr>) \<in> set [((0, 0, 0), default_Annotation\<lparr>distance := 4\<rparr>)]
   \<and> distinct (map fst [((0, 0, 0) :: Voxel, default_Annotation\<lparr>distance := 4\<rparr>)])
   \<and> IsObjectPoint \<lparr>points = (\<lambda>x y z. 0), sizes = [1, 1, 1]\<rparr> (0, 0, 0)
   \<and> (\<exists>k ann. MemoryGraph_Build [((0, 0, 0), default_Annotation\<lparr>distance := 4\<rparr>)]
                   \<lparr>points = (\<lambda>x y z. 0), sizes = [1, 1, 1]\<rparr> (0, 0, 0) = Some (k, ann)
         \<and> PropertyValue k = 4)
   \<and> (\<exists>g. SpeedGraph_Build [((0, 0, 0), default_Annotation\<lparr>distance := 4\<rparr>)]
                   \<lparr>points = (\<lambda>x y z. 0), sizes = [1, 1, 1]\<rparr> = Inr g
         \<and> PropertyValue (fst (vertex_set g ! 0)) = 4)"
proof -
  let ?a = "default_Annotation\<lparr>distance := 4\<rparr>"
  let ?img = "[((0, 0, 0) :: Voxel, ?a)]"
  let ?orig = "\<lparr>points = (\<lambda>x y z. 0), sizes = [1, 1, 1]\<rparr>"
  have h1: "((0, 0, 0), ?a) \<in> set ?img" by simp
  have h2: "distinct (map fst ?img)" by simp
  have h3: "IsObjectPoint ?orig (0, 0, 0)" by (simp add: IsObjectPoint_def IsOffLimitsPoint_def)
  have i: "ConvertToLinearIndex ?orig (0, 0, 0) = 0" by (simp add: ConvertToLinearIndex_def)
  from Build_property_value[OF h1 h2 h3] h1 h2 h3 i show ?thesis by simp blast
qed

text \<open>
  C4 as stated fails: for a pore voxel annotated with the squared distance 4, both builders
  store the property value 4, while the square root of the annotated distance is 2.
\<close>

theorem Build_property_value_counterexample:
  "PropertyValue (fst (the (MemoryGraph_Build [((0, 0, 0), default_Annotation\<lparr>distance := 4\<rparr>)]
                   \<lparr>points = (\<lambda>x y z. 0), sizes = [1, 1, 1]\<rparr> (0, 0, 0))))
     \<noteq> sqrt (real (unat (distance (default_Annotation\<lparr>distance := 4\<rparr>))))
   \<and> (case SpeedGraph_Build [((0, 0, 0), default_Annotation\<lparr>distance := 4\<rparr>)]
                   \<lparr>points = (\<lambda>x y z. 0), sizes = [1, 1, 1]\<rparr> of
         Inl e \<Rightarrow> False
       | Inr g \<Rightarrow> PropertyValue (fst (vertex_set g ! 0))
                   \<noteq> sqrt (real (unat (distance (default_Annotation\<lparr>distance := 4\<rparr>)))))"
  by (simp add: MemoryGraph_Build_def SpeedGraph_Build_def IsObjectPoint_def IsOffLimitsPoint_def
      ConvertToLinearIndex_def GetTotalSize_def)

lemma SpeedGraph_Build_flags_unset:
  assumes "SpeedGraph_Build img original = Inr g" and "distinct (map fst img)"
    and "\<forall>e \<in> set img. IsObjectPoint original (fst e) \<longrightarrow> fst e \<noteq> q"
    and "\<not> IsOffLimitsPoint original q"
  shows "ConvertToLinearIndex original q < length (has_annotation_list g)
         \<and> \<not> has_annotation_list g ! ConvertToLinearIndex original q"
proof -
  let ?n = "GetTotalSize original"
  from SpeedGraph_Build_loop_ok[of "replicate ?n (Vertex (0, 0, 0) 0, default_VertexAnnotation)"
      original "replicate ?n False" img] assms(2)
  obtain vs' flags' where
    h: "SpeedGraph_Build_loop original img
          (replicate ?n (Vertex (0, 0, 0) 0, default_VertexAnnotation), replicate ?n False)
        = Inr (vs', flags')"
       "length flags' = ?n"
       "\<forall>i. (\<forall>e \<in> set img. IsObjectPoint original (fst e) \<longrightarrow> ConvertToLinearIndex original (fst e) \<noteq> i)
           \<longrightarrow> flags' ! i = replicate ?n False ! i"
    by auto
  from h(1) assms(1) have g: "has_annotation_list g = flags'"
    by (auto simp: SpeedGraph_Build_def)
  have b: "ConvertToLinearIndex original q < ?n"
    using assms(4) by (rule ConvertToLinearIndex_bound)
  have "\<forall>e \<in> set img. IsObjectPoint original (fst e) \<longrightarrow>
          ConvertToLinearIndex original (fst e) \<noteq> ConvertToLinearIndex original q"
    using assms(3,4) ConvertToLinearIndex_inj IsObjectPoint_in_bounds by blast
  with h(3) have "flags' ! ConvertToLinearIndex original q
                   = replicate ?n False ! ConvertToLinearIndex original q" by blast
  with b g h(2) show ?thesis by simp
qed

text \<open>
  Lookups of absent keys inside the cube.  In the hash-keyed graph, the lookup of a key
  that is not present raises \<open>out_of_range\<close>, leaves the graph as it was, and
  \<open>HasVertex\<close> answers false.  In the flat-indexed graph the same holds for a key whose
  linear index lies inside the arrays and whose presence flag is unset; in a graph made by
  the builder this is the case for every voxel inside the cube that is not an annotated
  pore voxel.
\<close>

lemma graph_lookup_inside_cube:
  "(g (vPoint k) = None \<longrightarrow>
       MemoryGraph_get g k = (Inl OutOfRange, g) \<and> \<not> MemoryGraph_HasVertex g k)
   \<and> (convert_key sg k < length (has_annotation_list sg)
        \<and> \<not> has_annotation_list sg ! convert_key sg k \<longrightarrow>
       SpeedGraph_get sg k = (Inl OutOfRange, sg) \<and> SpeedGraph_HasVertex sg k = Inr False)
   \<and> (SpeedGraph_Build img original = Inr bg \<and> distinct (map fst img)
        \<and> (\<forall>e \<in> set img. IsObjectPoint original (fst e) \<longrightarrow> fst e \<noteq> vPoint k)
        \<and> \<not> IsOffLimitsPoint original (vPoint k) \<longrightarrow>
       SpeedGraph_get bg k = (Inl OutOfRange, bg) \<and> SpeedGraph_HasVertex bg k = Inr False)"
proof (intro conjI impI)
  assume "g (vPoint k) = None"
  then show "MemoryGraph_get g k = (Inl OutOfRange, g)" "\<not> MemoryGraph_HasVertex g k"
    by (simp_all add: MemoryGraph_get_def MemoryGraph_HasVertex_def)
next
  assume "convert_key sg k < length (has_annotation_list sg)
        \<and> \<not> has_annotation_list sg ! convert_key sg k"
  then show "SpeedGraph_get sg k = (Inl OutOfRange, sg)" "SpeedGraph_HasVertex sg k = Inr False"
    by (simp_all add: SpeedGraph_get_def SpeedGraph_HasVertex_def Let_def)
next
  assume a: "SpeedGraph_Build img original = Inr bg \<and> distinct (map fst img)
        \<and> (\<forall>e \<in> set img. IsObjectPoint original (fst e) \<longrightarrow> fst e \<noteq> vPoint k)
        \<and> \<not> IsOffLimitsPoint original (vPoint k)"
  then have c: "convert_image bg = original" by (auto simp: SpeedGraph_Build_def split: sum.splits)
  from a SpeedGraph_Build_flags_unset[of img original bg "vPoint k"]
  have "ConvertToLinearIndex original (vPoint k) < length (has_annotation_list bg)
         \<and> \<not> has_annotation_list bg ! ConvertToLinearIndex original (vPoint k)" by blast
  with c show "SpeedGraph_get bg k = (Inl OutOfRange, bg)" "SpeedGraph_HasVertex bg k = Inr False"
    by (simp_all add: SpeedGraph_get_def SpeedGraph_HasVertex_def Let_def convert_key_def)
qed

lemma replicate_numeral: "replicate (numeral k) x = x # replicate (pred_numeral k) x"
  by (simp add: numeral_eq_Suc)

lemma list_update_numeral: "(x # xs)[numeral k := y] = x # xs[pred_numeral k := y]"
  by (simp add: numeral_eq_Suc)

lemmas eval_image = IsObjectPoint_def IsContourPoint_def IsOffLimitsPoint_def
  ConvertToLinearIndex_def GetTotalSize_def word_le_nat_alt Let_def
  replicate_numeral list_update_numeral

text \<open>
  C9.  The flat-indexed graph answers for keys that it does not hold.  In the graph built
  for a 2 x 2 x 1 cube whose only annotated voxel is (0, 1, 0), no vertex has the point
  (2, 0, 0); its linear index 2 is the one of (0, 1, 0), so \<^verbatim>\<open>operator[]\<close> returns an
  annotation where its documentation promises \<^verbatim>\<open>std::out_of_range\<close>, and
  \<^verbatim>\<open>HasVertex\<close> answers true.  The linear index of (0, 0, 1) is 4, outside the
  arrays, and \<^verbatim>\<open>HasVertex\<close>, declared \<^verbatim>\<open>noexcept\<close>, throws from \<^verbatim>\<open>at\<close>.  The
  hash-keyed graph raises \<^verbatim>\<open>out_of_range\<close> and answers false for the same keys.
\<close>

theorem SpeedGraph_lookup_outside_cube:
  "SpeedGraph_Build [((0, 1, 0), default_Annotation\<lparr>distance := 1\<rparr>)] \<lparr>points = (\<lambda>x y z. 0), sizes = [2, 2, 1]\<rparr> = Inr \<lparr>vertex_set = [(Vertex (0, 0, 0) 0, default_VertexAnnotation), (Vertex (0, 0, 0) 0, default_VertexAnnotation), (Vertex (0, 1, 0) 1, default_VertexAnnotation), (Vertex (0, 0, 0) 0, default_VertexAnnotation)], has_annotation_list = [False, False, True, False], convert_image = \<lparr>points = (\<lambda>x y z. 0), sizes = [2, 2, 1]\<rparr>\<rparr>
   \<and> (2, 0, 0) \<notin> vPoint ` fst ` set (vertex_set \<lparr>vertex_set = [(Vertex (0, 0, 0) 0, default_VertexAnnotation), (Vertex (0, 0, 0) 0, default_VertexAnnotation), (Vertex (0, 1, 0) 1, default_VertexAnnotation), (Vertex (0, 0, 0) 0, default_VertexAnnotation)], has_annotation_list = [False, False, True, False], convert_image = \<lparr>points = (\<lambda>x y z. 0), sizes = [2, 2, 1]\<rparr>\<rparr>)
   \<and> fst (SpeedGraph_get \<lparr>vertex_set = [(Vertex (0, 0, 0) 0, default_VertexAnnotation), (Vertex (0, 0, 0) 0, default_VertexAnnotation), (Vertex (0, 1, 0) 1, default_VertexAnnotation), (Vertex (0, 0, 0) 0, default_VertexAnnotation)], has_annotation_list = [False, False, True, False], convert_image = \<lparr>points = (\<lambda>x y z. 0), sizes = [2, 2, 1]\<rparr>\<rparr> (Vertex (2, 0, 0) 0)) = Inr default_VertexAnnotation
   \<and> SpeedGraph_HasVertex \<lparr>vertex_set = [(Vertex (0, 0, 0) 0, default_VertexAnnotation), (Vertex (0, 0, 0) 0, default_VertexAnnotation), (Vertex (0, 1, 0) 1, default_VertexAnnotation), (Vertex (0, 0, 0) 0, default_VertexAnnotation)], has_annotation_list = [False, False, True, False], convert_image = \<lparr>points = (\<lambda>x y z. 0), sizes = [2, 2, 1]\<rparr>\<rparr> (Vertex (2, 0, 0) 0) = Inr True
   \<and> SpeedGraph_HasVertex \<lparr>vertex_set = [(Vertex (0, 0, 0) 0, default_VertexAnnotation), (Vertex (0, 0, 0) 0, default_VertexAnnotation), (Vertex (0, 1, 0) 1, default_VertexAnnotation), (Vertex (0, 0, 0) 0, default_VertexAnnotation)], has_annotation_list = [False, False, True, False], convert_image = \<lparr>points = (\<lambda>x y z. 0), sizes = [2, 2, 1]\<rparr>\<rparr> (Vertex (0, 0, 1) 0) = Inl OutOfRange
   \<and> fst (MemoryGraph_get (MemoryGraph_Build [((0, 1, 0), default_Annotation\<lparr>distance := 1\<rparr>)] \<lparr>points = (\<lambda>x y z. 0), sizes = [2, 2, 1]\<rparr>) (Vertex (2, 0, 0) 0)) = Inl OutOfRange
   \<and> MemoryGraph_HasVertex (MemoryGraph_Build [((0, 1, 0), default_Annotation\<lparr>distance := 1\<rparr>)] \<lparr>points = (\<lambda>x y z. 0), sizes = [2, 2, 1]\<rparr>) (Vertex (2, 0, 0) 0) = False"
  by (simp add: SpeedGraph_Build_def SpeedGraph_get_def SpeedGraph_HasVertex_def
      MemoryGraph_Build_def MemoryGraph_get_def MemoryGraph_HasVertex_def
      convert_key_def eval_image)

section \<open>Properties of the handle-based binary heap\<close>

lemma wf_heapD:
  "wf_heap h \<Longrightarrow> i < length (elements h) \<Longrightarrow>
     \<exists>x. handles h (elements h ! i) = Some x \<and> Index x = i"
  by (simp add: wf_heap_def)

lemma Swap_ok:
  assumes wf: "wf_heap h" and i: "i < length (elements h)" and j: "j < length (elements h)"
    and ne: "i \<noteq> j"
  shows "\<exists>h'. Swap h i j = Inr h' \<and> wf_heap h'
           \<and> keys_of h' = (keys_of h)[j := keys_of h ! i, i := keys_of h ! j]
           \<and> length (elements h') = length (elements h)
           \<and> next_handle h' = next_handle h"
proof -
  let ?e = "elements h"
  from wf_heapD[OF wf i] obtain xi where xi: "handles h (?e ! i) = Some xi" "Index xi = i" by blast
  from wf_heapD[OF wf j] obtain xj where xj: "handles h (?e ! j) = Some xj" "Index xj = j" by blast
  from wf have d: "distinct ?e" by (simp add: wf_heap_def)
  with i j ne have pne: "?e ! i \<noteq> ?e ! j" by (simp add: nth_eq_iff_index_eq)
  let ?e' = "?e[j := ?e ! i, i := ?e ! j]"
  let ?hs = "(handles h)(?e ! j \<mapsto> xj\<lparr>Index := i\<rparr>, ?e ! i \<mapsto> xi\<lparr>Index := j\<rparr>)"
  let ?h' = "h\<lparr>elements := ?e', handles := ?hs\<rparr>"
  have sw: "Swap h i j = Inr ?h'"
    using i j ne xi xj pne
    by (simp add: Swap_def elements_at_def SetIndex_def Let_def nth_list_update)
  have e'set: "set ?e' = set ?e"
  proof -
    have "mset ?e' = mset ?e" using i j by (simp add: mset_swap)
    then show ?thesis by (metis set_mset_mset)
  qed
  have d': "distinct ?e'"
  proof -
    have "mset ?e' = mset ?e" using i j by (simp add: mset_swap)
    with d show ?thesis by (metis distinct_count_atmost_1 count_mset_0_iff mset_eq_setD)
  qed
  have idx: "\<forall>k < length ?e'. \<exists>x. ?hs (?e' ! k) = Some x \<and> Index x = k"
  proof (intro allI impI)
    fix k assume k: "k < length ?e'"
    show "\<exists>x. ?hs (?e' ! k) = Some x \<and> Index x = k"
    proof (cases "k = i")
      case True
      with i j ne pne show ?thesis by (simp add: nth_list_update)
    next
      case False
      note ki = this
      show ?thesis
      proof (cases "k = j")
        case True
        with i j ne pne show ?thesis by (simp add: nth_list_update)
      next
        case False
        with ki k have "?e' ! k = ?e ! k" by (simp add: nth_list_update)
        moreover have "?e ! k \<noteq> ?e ! i" "?e ! k \<noteq> ?e ! j"
          using d k i j ki False by (simp_all add: nth_eq_iff_index_eq)
        moreover from wf_heapD[OF wf, of k] k obtain x where "handles h (?e ! k) = Some x" "Index x = k" by auto
        ultimately show ?thesis by simp
      qed
    qed
  qed
  have wf': "wf_heap ?h'"
    using d' idx e'set wf by (simp add: wf_heap_def)
  have keys: "keys_of ?h' = (keys_of h)[j := keys_of h ! i, i := keys_of h ! j]"
  proof (rule nth_equalityI)
    show "length (keys_of ?h') = length ((keys_of h)[j := keys_of h ! i, i := keys_of h ! j])"
      by (simp add: keys_of_def)
  next
    fix k assume "k < length (keys_of ?h')"
    then have k: "k < length ?e" by (simp add: keys_of_def)
    show "keys_of ?h' ! k = (keys_of h)[j := keys_of h ! i, i := keys_of h ! j] ! k"
    proof (cases "k = i")
      case True
      with i j ne pne xi xj show ?thesis by (simp add: keys_of_def nth_list_update)
    next
      case False
      note ki = this
      show ?thesis
      proof (cases "k = j")
        case True
        with i j ne pne xi xj show ?thesis by (simp add: keys_of_def nth_list_update)
      next
        case False
        have "?e ! k \<noteq> ?e ! i" "?e ! k \<noteq> ?e ! j"
          using d k i j ki False by (simp_all add: nth_eq_iff_index_eq)
        with ki False k show ?thesis by (simp add: keys_of_def nth_list_update)
      qed
    qed
  qed
  from sw wf' keys show ?thesis by simp
qed

lemma Parent_less: "0 < c \<Longrightarrow> Parent c < c"
  by (simp add: Parent_def)

lemma Parent_child: "0 < c \<Longrightarrow> Parent c = i \<longleftrightarrow> c = Left i \<or> c = Right i"
  by (auto simp: Parent_def Left_def Right_def)

lemma swap_nth:
  "i < length ks \<Longrightarrow> j < length ks \<Longrightarrow>
     ks[j := ks ! i, i := ks ! j] ! k = (if k = i then ks ! j else if k = j then ks ! i else ks ! k)"
  by (simp add: nth_list_update)

lemma down_inv_done:
  assumes "down_inv prio ks i"
    and "\<forall>c. 0 < c \<and> c < length ks \<and> Parent c = i \<longrightarrow> prio (ks ! i) \<le> prio (ks ! c)"
  shows "heap_ok prio ks"
  using assms unfolding heap_ok_def down_inv_def by metis

lemma down_step:
  assumes inv: "down_inv prio ks i" and i: "i < length ks" and s: "s < length ks"
    and sp: "0 < s" "Parent s = i"
    and lt: "prio (ks ! s) < prio (ks ! i)"
    and sm: "\<forall>c. 0 < c \<and> c < length ks \<and> Parent c = i \<longrightarrow> prio (ks ! s) \<le> prio (ks ! c)"
  shows "down_inv prio (ks[s := ks ! i, i := ks ! s]) s"
proof -
  let ?ks = "ks[s := ks ! i, i := ks ! s]"
  have i_lt_s: "i < s" using sp Parent_less by blast
  have nth: "\<And>k. ?ks ! k = (if k = i then ks ! s else if k = s then ks ! i else ks ! k)"
    using i s by (simp add: nth_list_update)
  have len: "length ?ks = length ks" by simp
  have A: "prio (?ks ! Parent c) \<le> prio (?ks ! c)"
    if c: "0 < c" "c < length ks" "Parent c \<noteq> s" for c
  proof (cases "Parent c = i")
    case True
    show ?thesis
    proof (cases "c = s")
      case True
      with \<open>Parent c = i\<close> i_lt_s lt show ?thesis by (simp add: nth)
    next
      case False
      have "c \<noteq> i" using True c Parent_less[of c] by auto
      with False True sm c show ?thesis by (simp add: nth)
    qed
  next
    case False
    note pi = this
    have cs: "c \<noteq> s" using sp pi by auto
    show ?thesis
    proof (cases "c = i")
      case True
      then have i0: "0 < i" using c by simp
      have pi_ne: "Parent i \<noteq> i" "Parent i \<noteq> s" using Parent_less[OF i0] i_lt_s by auto
      from inv i0 sp s have "prio (ks ! Parent i) \<le> prio (ks ! s)"
        unfolding down_inv_def by blast
      with True pi_ne i_lt_s show ?thesis by (simp add: nth)
    next
      case False
      from inv c pi have "prio (ks ! Parent c) \<le> prio (ks ! c)"
        unfolding down_inv_def by blast
      with False cs pi c(3) show ?thesis by (simp add: nth)
    qed
  qed
  have B: "prio (?ks ! Parent s) \<le> prio (?ks ! c)"
    if c: "0 < c" "c < length ks" "Parent c = s" for c
  proof -
    have sc: "s < c" using c Parent_less[of c] by auto
    then have "c \<noteq> i" "c \<noteq> s" using i_lt_s by auto
    moreover from inv c i_lt_s have "prio (ks ! s) \<le> prio (ks ! c)"
      unfolding down_inv_def by (metis less_irrefl)
    ultimately show ?thesis using sp i_lt_s by (simp add: nth)
  qed
  show ?thesis
    unfolding down_inv_def len using A B sp by blast
qed

lemma up_inv_done:
  assumes "up_inv prio ks i" and "0 < i \<longrightarrow> prio (ks ! Parent i) \<le> prio (ks ! i)"
  shows "heap_ok prio ks"
  using assms unfolding heap_ok_def up_inv_def by metis

lemma up_step:
  assumes inv: "up_inv prio ks i" and i: "0 < i" "i < length ks"
    and lt: "prio (ks ! i) < prio (ks ! Parent i)"
  shows "up_inv prio (ks[Parent i := ks ! i, i := ks ! Parent i]) (Parent i)"
proof -
  let ?p = "Parent i"
  let ?ks = "ks[?p := ks ! i, i := ks ! ?p]"
  have pi: "?p < i" using i Parent_less by blast
  then have p: "?p < length ks" using i by simp
  have nth: "\<And>k. ?ks ! k = (if k = i then ks ! ?p else if k = ?p then ks ! i else ks ! k)"
    using i p by (simp add: nth_list_update)
  have len: "length ?ks = length ks" by simp
  have A: "prio (?ks ! Parent c) \<le> prio (?ks ! c)"
    if c: "0 < c" "c < length ks" "c \<noteq> ?p" for c
  proof (cases "c = i")
    case True
    with pi lt show ?thesis by (simp add: nth)
  next
    case False
    note ci = this
    from inv c ci have ok: "prio (ks ! Parent c) \<le> prio (ks ! c)"
      unfolding up_inv_def by blast
    show ?thesis
    proof (cases "Parent c = i")
      case True
      from inv i c True have "prio (ks ! ?p) \<le> prio (ks ! c)"
        unfolding up_inv_def by blast
      with True ci c(3) show ?thesis by (simp add: nth)
    next
      case False
      note pci = this
      show ?thesis
      proof (cases "Parent c = ?p")
        case True
        with ok lt have "prio (ks ! i) \<le> prio (ks ! c)" by simp
        with True ci c(3) pi show ?thesis by (simp add: nth)
      next
        case False
        with pci ci c(3) ok show ?thesis by (simp add: nth)
      qed
    qed
  qed
  have B: "prio (?ks ! Parent ?p) \<le> prio (?ks ! c)"
    if c: "0 < c" "c < length ks" "Parent c = ?p" "0 < ?p" for c
  proof -
    have ppne: "Parent ?p \<noteq> ?p" "Parent ?p \<noteq> i" using Parent_less[OF c(4)] pi by auto
    have pp: "prio (ks ! Parent ?p) \<le> prio (ks ! ?p)"
      using inv c(4) p pi unfolding up_inv_def by (metis less_irrefl)
    show ?thesis
    proof (cases "c = i")
      case True
      with pp ppne show ?thesis by (simp add: nth)
    next
      case False
      have cp: "c \<noteq> ?p" using c Parent_less[of c] by auto
      from inv c False have "prio (ks ! ?p) \<le> prio (ks ! c)"
        unfolding up_inv_def by metis
      with pp have "prio (ks ! Parent ?p) \<le> prio (ks ! c)" by simp
      with False cp ppne show ?thesis by (simp add: nth)
    qed
  qed
  show ?thesis
    unfolding up_inv_def len using A B by blast
qed

lemma heap_ok_root:
  assumes "heap_ok prio ks"
  shows "i < length ks \<Longrightarrow> prio (ks ! 0) \<le> prio (ks ! i)"
proof (induction i rule: less_induct)
  case (less i)
  show ?case
  proof (cases "i = 0")
    case True
    then show ?thesis by simp
  next
    case False
    then have i0: "0 < i" by simp
    have "Parent i < i" using i0 by (rule Parent_less)
    with less have "prio (ks ! 0) \<le> prio (ks ! Parent i)" by simp
    moreover from assms i0 less.prems have "prio (ks ! Parent i) \<le> prio (ks ! i)"
      unfolding heap_ok_def by blast
    ultimately show ?thesis by simp
  qed
qed

lemma IsLess_at_ok:
  assumes "wf_heap h" "i < length (elements h)" "j < length (elements h)"
  shows "IsLess_at IsLess h i j = Inr (IsLess (keys_of h ! i) (keys_of h ! j))"
proof -
  from wf_heapD[OF assms(1,2)] obtain xi where "handles h (elements h ! i) = Some xi" by blast
  moreover from wf_heapD[OF assms(1,3)] obtain xj where "handles h (elements h ! j) = Some xj" by blast
  ultimately show ?thesis
    using assms(2,3) by (simp add: IsLess_at_def elements_at_def deref_def keys_of_def)
qed

lemma length_keys_of [simp]: "length (keys_of h) = length (elements h)"
  by (simp add: keys_of_def)

lemma mset_swap_keys:
  "i < length ks \<Longrightarrow> j < length ks \<Longrightarrow> mset (ks[j := ks ! i, i := ks ! j]) = mset ks"
  by (simp add: mset_swap)

lemma MinHeapify_ok:
  assumes cmp_prio: "\<And>a b. IsLess a b = (prio a < prio b)"
  shows "wf_heap h \<Longrightarrow> i < length (elements h) \<Longrightarrow> down_inv prio (keys_of h) i \<Longrightarrow>
     \<exists>h'. MinHeapify IsLess h i = Inr h' \<and> wf_heap h' \<and> heap_ok prio (keys_of h')
        \<and> mset (keys_of h') = mset (keys_of h)
        \<and> length (elements h') = length (elements h) \<and> next_handle h' = next_handle h"
proof (induction "length (elements h) - i" arbitrary: h i rule: less_induct)
  case less
  note wf = less.prems(1) and i = less.prems(2) and inv = less.prems(3)
  let ?ks = "keys_of h"
  let ?n = "length (elements h)"
  let ?L = "Left i" and ?R = "Right i"
  define bl where "bl = (?L < ?n \<and> prio (?ks ! ?L) < prio (?ks ! i))"
  define s1 where "s1 = (if bl then ?L else i)"
  define br where "br = (?R < ?n \<and> prio (?ks ! ?R) < prio (?ks ! s1))"
  define s where "s = (if br then ?R else s1)"
  have s1n: "s1 < ?n" using i by (auto simp: s1_def bl_def)
  have e1: "(if IsValid h ?L then IsLess_at IsLess h ?L i else Inr False) = Inr bl"
    using wf i by (auto simp: IsValid_def HeapSize_def IsLess_at_ok cmp_prio bl_def)
  have e2: "(if IsValid h ?R then IsLess_at IsLess h ?R (if bl then ?L else i) else Inr False) = Inr br"
    using wf s1n by (auto simp: IsValid_def HeapSize_def IsLess_at_ok cmp_prio br_def s1_def)
  have sm: "(if br then ?R else if bl then ?L else i) = s" by (simp add: s_def s1_def)
  have unfold: "MinHeapify IsLess h i =
      (if s \<noteq> i then (case Swap h i s of Inl e \<Rightarrow> Inl e | Inr h' \<Rightarrow> MinHeapify IsLess h' s) else Inr h)"
    by (subst MinHeapify.simps) (simp add: e1 e2 sm Let_def)
  have children: "\<And>c. 0 < c \<Longrightarrow> Parent c = i \<longleftrightarrow> c = ?L \<or> c = ?R" by (rule Parent_child)
  have LR: "?L \<noteq> i" "?R \<noteq> i" "?L \<noteq> ?R" "0 < ?L" "0 < ?R" by (simp_all add: Left_def Right_def)
  have smallest: "\<forall>c. 0 < c \<and> c < ?n \<and> Parent c = i \<longrightarrow> prio (?ks ! s) \<le> prio (?ks ! c)"
  proof (intro allI impI)
    fix c assume c: "0 < c \<and> c < ?n \<and> Parent c = i"
    then have "c = ?L \<or> c = ?R" using children by blast
    then show "prio (?ks ! s) \<le> prio (?ks ! c)"
      using c LR by (auto simp: s_def s1_def br_def bl_def not_less split: if_splits)
  qed
  show ?case
  proof (cases "s = i")
    case True
    then have "heap_ok prio ?ks" using down_inv_done[OF inv] smallest by simp
    with True wf unfold show ?thesis by simp
  next
    case False
    then have sLR: "s = ?L \<or> s = ?R" by (auto simp: s_def s1_def split: if_splits)
    have sn: "s < ?n" using False by (auto simp: s_def s1_def br_def bl_def split: if_splits)
    have s0: "0 < s" "Parent s = i" using sLR children LR by auto
    have slt: "prio (?ks ! s) < prio (?ks ! i)"
      using False LR by (auto simp: s_def s1_def br_def bl_def split: if_splits)
    from Swap_ok[OF wf i sn] False obtain h1 where
      h1: "Swap h i s = Inr h1" "wf_heap h1"
          "keys_of h1 = ?ks[s := ?ks ! i, i := ?ks ! s]"
          "length (elements h1) = ?n" "next_handle h1 = next_handle h"
      by metis
    have inv1: "down_inv prio (keys_of h1) s"
      unfolding h1(3)
      by (rule down_step[OF inv]) (use i sn s0 slt smallest in simp_all)
    have "i < s" using s0 Parent_less by blast
    then have m: "length (elements h1) - s < ?n - i" using sn h1(4) by simp
    from less.hyps[OF m h1(2) _ inv1] sn h1(4) obtain h' where
      h': "MinHeapify IsLess h1 s = Inr h'" "wf_heap h'" "heap_ok prio (keys_of h')"
          "mset (keys_of h') = mset (keys_of h1)"
          "length (elements h') = length (elements h1)" "next_handle h' = next_handle h1"
      by auto
    have "mset (keys_of h1) = mset ?ks"
      unfolding h1(3) using i sn by (simp add: mset_swap_keys)
    with h' h1 False unfold show ?thesis by simp
  qed
qed

lemma move_up_ok:
  assumes cmp_prio: "\<And>a b. IsLess a b = (prio a < prio b)"
  shows "wf_heap h \<Longrightarrow> i < length (elements h) \<Longrightarrow> up_inv prio (keys_of h) i \<Longrightarrow>
     \<exists>h'. move_up IsLess h i = Inr h' \<and> wf_heap h' \<and> heap_ok prio (keys_of h')
        \<and> mset (keys_of h') = mset (keys_of h)
        \<and> length (elements h') = length (elements h) \<and> next_handle h' = next_handle h"
proof (induction i arbitrary: h rule: less_induct)
  case (less i)
  note wf = less.prems(1) and i = less.prems(2) and inv = less.prems(3)
  let ?ks = "keys_of h"
  let ?n = "length (elements h)"
  show ?case
  proof (cases "0 < i")
    case False
    then have "heap_ok prio ?ks" using up_inv_done[OF inv] by simp
    with False wf show ?thesis by (subst move_up.simps) simp
  next
    case True
    let ?p = "Parent i"
    have pi: "?p < i" using True by (rule Parent_less)
    then have pn: "?p < ?n" using i by simp
    have cmp: "IsLess_at IsLess h i ?p = Inr (prio (?ks ! i) < prio (?ks ! ?p))"
      using wf i pn by (simp add: IsLess_at_ok cmp_prio)
    show ?thesis
    proof (cases "prio (?ks ! i) < prio (?ks ! ?p)")
      case False
      then have "heap_ok prio ?ks" using up_inv_done[OF inv] by (simp add: not_less)
      with False True wf cmp show ?thesis by (subst move_up.simps) simp
    next
      case lt: True
      from Swap_ok[OF wf i pn] pi obtain h1 where
        h1: "Swap h i ?p = Inr h1" "wf_heap h1"
            "keys_of h1 = ?ks[?p := ?ks ! i, i := ?ks ! ?p]"
            "length (elements h1) = ?n" "next_handle h1 = next_handle h"
        by (metis less_irrefl)
      have inv1: "up_inv prio (keys_of h1) ?p"
        unfolding h1(3) by (rule up_step[OF inv]) (use True i lt in simp_all)
      from less.IH[OF pi h1(2) _ inv1] pn h1(4) obtain h' where
        h': "move_up IsLess h1 ?p = Inr h'" "wf_heap h'" "heap_ok prio (keys_of h')"
            "mset (keys_of h') = mset (keys_of h1)"
            "length (elements h') = length (elements h1)" "next_handle h' = next_handle h1"
        by auto
      have "mset (keys_of h1) = mset ?ks"
        unfolding h1(3) using i pn by (simp add: mset_swap_keys)
      with h' h1 lt True cmp show ?thesis by (subst move_up.simps) simp
    qed
  qed
qed

lemma wf_heap_counters [simp]:
  "wf_heap (h\<lparr>decreaseCounter := d\<rparr>) = wf_heap h"
  "wf_heap (h\<lparr>removeCounter := r\<rparr>) = wf_heap h"
  by (simp_all add: wf_heap_def)

lemma keys_of_counters [simp]:
  "keys_of (h\<lparr>decreaseCounter := d\<rparr>) = keys_of h"
  "keys_of (h\<lparr>removeCounter := r\<rparr>) = keys_of h"
  by (simp_all add: keys_of_def)

lemma Insert_ok:
  assumes cmp_prio: "\<And>a b. IsLess a b = (prio a < prio b)"
    and wf: "wf_heap h" and ok: "heap_ok prio (keys_of h)"
    and mx: "\<not> IsLess maximum_key key"
  shows "\<exists>p h'. Insert IsLess maximum_key h key = Inr (p, h') \<and> wf_heap h'
           \<and> heap_ok prio (keys_of h') \<and> mset (keys_of h') = add_mset key (mset (keys_of h))
           \<and> length (elements h') = Suc (length (elements h))"
proof -
  let ?n = "length (elements h)"
  let ?p = "next_handle h"
  let ?h1 = "h\<lparr>handles := (handles h)(?p \<mapsto> \<lparr>Priority = maximum_key, Index = HeapSize h\<rparr>),
                 next_handle := next_handle h + 1,
                 elements := elements h @ [?p]\<rparr>"
  let ?h2 = "?h1\<lparr>handles := (handles ?h1)(?p \<mapsto> \<lparr>Priority = key, Index = HeapSize h\<rparr>)\<rparr>"
  from wf have fresh: "?p \<notin> set (elements h)" by (auto simp: wf_heap_def)
  have wf2: "wf_heap ?h2"
    unfolding wf_heap_def
  proof (intro conjI allI impI ballI)
    show "distinct (elements ?h2)" using wf fresh by (simp add: wf_heap_def)
  next
    fix i assume "i < length (elements ?h2)"
    then have "i < ?n \<or> i = ?n" by auto
    then show "\<exists>x. handles ?h2 (elements ?h2 ! i) = Some x \<and> Index x = i"
    proof
      assume i: "i < ?n"
      then have "elements h ! i \<noteq> ?p" using fresh by (metis nth_mem)
      with i wf_heapD[OF wf i] show ?thesis by (simp add: nth_append)
    next
      assume "i = ?n"
      then show ?thesis by (simp add: HeapSize_def)
    qed
  next
    fix q assume "q \<in> set (elements ?h2)"
    then show "q < next_handle ?h2" using wf by (auto simp: wf_heap_def less_Suc_eq)
  qed
  have keys2: "keys_of ?h2 = keys_of h @ [key]"
    using fresh by (simp add: keys_of_def)
  have inv2: "up_inv prio (keys_of ?h2) ?n"
    unfolding up_inv_def keys2
  proof (intro conjI allI impI)
    fix c assume c: "0 < c \<and> c < length (keys_of h @ [key]) \<and> c \<noteq> ?n"
    then have cn: "c < ?n" by simp
    moreover have "Parent c < ?n" using c cn Parent_less[of c] by simp
    moreover from ok c cn have "prio (keys_of h ! Parent c) \<le> prio (keys_of h ! c)"
      by (simp add: heap_ok_def)
    ultimately show "prio ((keys_of h @ [key]) ! Parent c) \<le> prio ((keys_of h @ [key]) ! c)"
      by (simp add: nth_append)
  next
    fix c assume "0 < ?n" and c: "0 < c \<and> c < length (keys_of h @ [key]) \<and> Parent c = ?n"
    then have "?n < c" using Parent_less[of c] by auto
    with c show "prio ((keys_of h @ [key]) ! Parent ?n) \<le> prio ((keys_of h @ [key]) ! c)" by simp
  qed
  have "?n < length (elements ?h2)" by simp
  from move_up_ok[OF cmp_prio wf2 this inv2] obtain h3 where
    h3: "move_up IsLess ?h2 ?n = Inr h3" "wf_heap h3" "heap_ok prio (keys_of h3)"
        "mset (keys_of h3) = mset (keys_of ?h2)" "length (elements h3) = length (elements ?h2)"
    by blast
  have "Insert IsLess maximum_key h key = Inr (?p, h3\<lparr>decreaseCounter := decreaseCounter h3 + 1\<rparr>)"
    using mx h3(1) by (simp add: Insert_def DecreasePriority_def deref_def Let_def HeapSize_def)
  with h3 keys2 show ?thesis by simp
qed

lemma Remove_ok:
  assumes cmp_prio: "\<And>a b. IsLess a b = (prio a < prio b)"
    and wf: "wf_heap h" and ok: "heap_ok prio (keys_of h)"
    and n2: "2 \<le> length (elements h)"
  shows "\<exists>h'. Remove IsLess h = Inr (keys_of h ! 0, h') \<and> wf_heap h'
           \<and> heap_ok prio (keys_of h')
           \<and> add_mset (keys_of h ! 0) (mset (keys_of h')) = mset (keys_of h)
           \<and> (\<forall>k \<in> set (keys_of h'). prio (keys_of h ! 0) \<le> prio k)
           \<and> Suc (length (elements h')) = length (elements h)"
proof -
  let ?e = "elements h"
  let ?n = "length ?e"
  let ?ks = "keys_of h"
  have n0: "0 < ?n" and n1: "?n - 1 < ?n" and n10: "?n - 1 \<noteq> 0" using n2 by auto
  from wf_heapD[OF wf n0] obtain x0 where x0: "handles h (?e ! 0) = Some x0" by blast
  from wf_heapD[OF wf n1] obtain xl where xl: "handles h (?e ! (?n - 1)) = Some xl" by blast
  from wf have d: "distinct ?e" by (simp add: wf_heap_def)
  have first: "First h = Inr (?ks ! 0)"
    using n0 x0 by (simp add: First_def elements_at_def deref_def keys_of_def)
  have fl: "?e ! (?n - 1) \<noteq> ?e ! 0" using d n0 n1 n10 by (simp add: nth_eq_iff_index_eq)
  let ?e2 = "butlast (?e[0 := ?e ! (?n - 1)])"
  let ?h3 = "h\<lparr>handles := (handles h)(?e ! 0 := None, ?e ! (?n - 1) \<mapsto> xl\<lparr>Index := 0\<rparr>),
               elements := ?e2\<rparr>"
  have len2: "length ?e2 = ?n - 1" by simp
  have e2nth: "\<And>k. k < ?n - 1 \<Longrightarrow> ?e2 ! k = (if k = 0 then ?e ! (?n - 1) else ?e ! k)"
    using n0 by (auto simp add: nth_butlast nth_list_update)
  have e2ne: "?e2 \<noteq> []" using n2 by (metis len2 length_0_conv n10)
  have e20: "?e2 ! 0 = ?e ! (?n - 1)" using e2nth[of 0] n2 by simp
  have wf3: "wf_heap ?h3"
    unfolding wf_heap_def
  proof (intro conjI allI impI ballI)
    show "distinct (elements ?h3)"
    proof -
      have "distinct (butlast ?e)" using d by (rule distinct_butlast)
      have "?e2 = (butlast ?e)[0 := ?e ! (?n - 1)]" using n10 by (simp add: butlast_list_update)
      moreover have "?e ! (?n - 1) \<notin> set (butlast ?e)"
        using d n0 by (metis append_butlast_last_id distinct_butlast last_conv_nth length_greater_0_conv
            not_distinct_conv_prefix)
      ultimately show ?thesis
        using \<open>distinct (butlast ?e)\<close>
        by (simp add: distinct_list_update)
    qed
  next
    fix k assume "k < length (elements ?h3)"
    then have k: "k < ?n - 1" by simp
    show "\<exists>x. handles ?h3 (elements ?h3 ! k) = Some x \<and> Index x = k"
    proof (cases "k = 0")
      case True
      with k fl e20 show ?thesis by simp
    next
      case False
      have kn: "k < ?n" using k by simp
      have "?e ! k \<noteq> ?e ! 0" "?e ! k \<noteq> ?e ! (?n - 1)"
        using d kn n0 n1 False k by (simp_all add: nth_eq_iff_index_eq)
      moreover have "?e2 ! k = ?e ! k" using False k e2nth[of k] by simp
      ultimately show ?thesis using wf_heapD[OF wf kn] by simp
    qed
  next
    fix q assume "q \<in> set (elements ?h3)"
    then have "q \<in> set ?e"
      by (metis (no_types, lifting) HandleBasedBinaryHeap.select_convs(1) HandleBasedBinaryHeap.surjective
          HandleBasedBinaryHeap.update_convs(1) HandleBasedBinaryHeap.update_convs(2) in_set_butlastD
          insert_iff n1 nth_mem set_update_subset_insert subsetD)
    then show "q < next_handle ?h3" using wf by (simp add: wf_heap_def)
  qed
  have keys3: "keys_of ?h3 = butlast (?ks[0 := ?ks ! (?n - 1)])"
  proof (rule nth_equalityI)
    show "length (keys_of ?h3) = length (butlast (?ks[0 := ?ks ! (?n - 1)]))" by simp
  next
    fix k assume "k < length (keys_of ?h3)"
    then have k: "k < ?n - 1" by simp
    then have kn: "k < ?n" by simp
    have lhs: "keys_of ?h3 ! k = Priority (the (handles ?h3 (?e2 ! k)))"
      using k by (simp add: keys_of_def)
    have rhs: "butlast (?ks[0 := ?ks ! (?n - 1)]) ! k = (if k = 0 then ?ks ! (?n - 1) else ?ks ! k)"
      using k kn n0 by (auto simp add: nth_butlast nth_list_update)
    have kk: "\<And>i. i < ?n \<Longrightarrow> ?ks ! i = Priority (the (handles h (?e ! i)))"
      by (simp add: keys_of_def)
    show "keys_of ?h3 ! k = butlast (?ks[0 := ?ks ! (?n - 1)]) ! k"
    proof (cases "k = 0")
      case True
      have "?e2 ! k = ?e ! (?n - 1)" using True e20 by simp
      then have "keys_of ?h3 ! k = Priority xl" unfolding lhs using fl by simp
      moreover have "?ks ! (?n - 1) = Priority xl" using kk[OF n1] xl by simp
      ultimately show ?thesis using True rhs by simp
    next
      case False
      have ne: "?e ! k \<noteq> ?e ! 0" "?e ! k \<noteq> ?e ! (?n - 1)"
        using d kn n0 n1 False k by (simp_all add: nth_eq_iff_index_eq)
      have "?e2 ! k = ?e ! k" using False k e2nth[of k] by simp
      then have "keys_of ?h3 ! k = Priority (the (handles h (?e ! k)))"
        unfolding lhs using ne by simp
      then show ?thesis using False rhs kk[OF kn] by simp
    qed
  qed
  have k3nth: "\<And>c. 0 < c \<Longrightarrow> c < ?n - 1 \<Longrightarrow> keys_of ?h3 ! c = ?ks ! c"
    unfolding keys3 by (simp add: nth_butlast)
  have inv3: "down_inv prio (keys_of ?h3) 0"
    unfolding down_inv_def
  proof (intro conjI allI impI)
    fix c assume c: "0 < c \<and> c < length (keys_of ?h3) \<and> Parent c \<noteq> 0"
    then have cn: "c < ?n - 1" by simp
    have p: "0 < Parent c" "Parent c < ?n - 1" using c cn Parent_less[of c] by auto
    have "c < ?n" using cn by linarith
    then have "0 < c \<and> c < length ?ks" using c by simp
    with ok have "prio (?ks ! Parent c) \<le> prio (?ks ! c)" unfolding heap_ok_def by blast
    moreover have "keys_of ?h3 ! c = ?ks ! c" using c cn by (intro k3nth) simp_all
    moreover have "keys_of ?h3 ! Parent c = ?ks ! Parent c" using p by (intro k3nth)
    ultimately show "prio (keys_of ?h3 ! Parent c) \<le> prio (keys_of ?h3 ! c)"
      by simp
  next
    fix c assume "(0::nat) < 0"
    then show "prio (keys_of ?h3 ! Parent 0) \<le> prio (keys_of ?h3 ! c)" by simp
  qed
  have "0 < length (elements ?h3)" using n2 by simp
  from MinHeapify_ok[OF cmp_prio wf3 this inv3] obtain h4 where
    h4: "MinHeapify IsLess ?h3 0 = Inr h4" "wf_heap h4" "heap_ok prio (keys_of h4)"
        "mset (keys_of h4) = mset (keys_of ?h3)" "length (elements h4) = length (elements ?h3)"
    by blast
  have run: "Remove IsLess h = Inr (?ks ! 0, h4\<lparr>removeCounter := removeCounter h4 + 1\<rparr>)"
  proof -
    have s: "SetIndex (h\<lparr>handles := (handles h)(?e ! 0 := None), elements := ?e2\<rparr>) (?e ! (?n - 1)) 0
             = Inr ?h3"
      using xl fl by (simp add: SetIndex_def)
    show ?thesis
      using n0 n2 first e2ne e20 s h4(1)
      by (simp add: Remove_def HeapSize_def elements_at_def Let_def)
  qed
  have ms3: "add_mset (?ks ! 0) (mset (keys_of ?h3)) = mset ?ks"
  proof -
    have kne: "?ks \<noteq> []" using n0 by (metis length_greater_0_conv length_keys_of)
    obtain k0 rest where ks: "?ks = k0 # rest" using kne by (cases ?ks) auto
    have rne: "rest \<noteq> []" using n2 ks by (metis One_nat_def Suc_1 length_Cons length_keys_of list.size(3) not_less_eq_eq order_refl)
    have last: "?ks ! (?n - 1) = last rest"
      using ks rne by (metis last_ConsR last_conv_nth length_keys_of list.distinct(1))
    have "butlast (?ks[0 := ?ks ! (?n - 1)]) = last rest # butlast rest"
      using ks rne last by simp
    moreover have "mset (last rest # butlast rest) = mset rest"
      using rne by (metis append_butlast_last_id mset.simps(2) mset_append union_mset_add_mset_right add.right_neutral mset.simps(1) add_mset_add_single union_commute)
    ultimately show ?thesis using ks keys3 by simp
  qed
  have minall: "\<forall>k \<in> set (keys_of ?h3). prio (?ks ! 0) \<le> prio k"
  proof
    fix k assume "k \<in> set (keys_of ?h3)"
    then have "k \<in># mset ?ks" using ms3 by (metis insert_iff set_mset_add_mset_insert set_mset_mset)
    then obtain i where "i < length ?ks" "?ks ! i = k" by (metis in_set_conv_nth set_mset_mset)
    with heap_ok_root[OF ok, of i] show "prio (?ks ! 0) \<le> prio k" by simp
  qed
  have "set (keys_of h4) = set (keys_of ?h3)" using h4(4) by (metis set_mset_mset)
  with run h4 wf3 ms3 minall show ?thesis using n2 by auto
qed

lemma Remove_singleton:
  assumes wf: "wf_heap h" and n1: "length (elements h) = 1"
  shows "Remove IsLess h = Inl UndefinedBehaviour"
proof -
  have n0: "0 < length (elements h)" using n1 by simp
  from wf_heapD[OF wf n0] obtain x0 where x0: "handles h (elements h ! 0) = Some x0" by blast
  obtain p where e: "elements h = [p]" using n1 by (cases "elements h") auto
  show ?thesis
    using x0 e by (simp add: Remove_def HeapSize_def First_def elements_at_def deref_def Let_def)
qed

lemma Remove_empty:
  "elements h = [] \<Longrightarrow> Remove IsLess h = Inl StdException"
  by (simp add: Remove_def HeapSize_def)

lemma empty_heap_ok:
  "wf_heap empty_heap" "keys_of empty_heap = []" "heap_ok prio []"
  by (simp_all add: wf_heap_def empty_heap_def keys_of_def heap_ok_def)

lemma insert_all_ok:
  assumes cmp_prio: "\<And>a b. IsLess a b = (prio a < prio b)"
  shows "wf_heap h \<Longrightarrow> heap_ok prio (keys_of h) \<Longrightarrow> \<forall>k \<in> set ks. \<not> IsLess maximum_key k \<Longrightarrow>
     \<exists>h'. insert_all IsLess maximum_key h ks = Inr h' \<and> wf_heap h' \<and> heap_ok prio (keys_of h')
        \<and> mset (keys_of h') = mset ks + mset (keys_of h)
        \<and> length (elements h') = length ks + length (elements h)"
proof (induction ks arbitrary: h)
  case Nil
  then show ?case by simp
next
  case (Cons k ks)
  from Cons.prems have mx: "\<not> IsLess maximum_key k" by simp
  from Insert_ok[OF cmp_prio Cons.prems(1) Cons.prems(2) mx] obtain p h1 where
    h1: "Insert IsLess maximum_key h k = Inr (p, h1)" "wf_heap h1" "heap_ok prio (keys_of h1)"
        "mset (keys_of h1) = add_mset k (mset (keys_of h))"
        "length (elements h1) = Suc (length (elements h))"
    by blast
  from Cons.prems have "\<forall>k \<in> set ks. \<not> IsLess maximum_key k" by simp
  from Cons.IH[OF h1(2) h1(3) this] obtain h' where
    h': "insert_all IsLess maximum_key h1 ks = Inr h'" "wf_heap h'" "heap_ok prio (keys_of h')"
        "mset (keys_of h') = mset ks + mset (keys_of h1)"
        "length (elements h') = length ks + length (elements h1)"
    by blast
  from h1 h' show ?case by simp
qed

lemma remove_n_ok:
  assumes cmp_prio: "\<And>a b. IsLess a b = (prio a < prio b)"
  shows "wf_heap h \<Longrightarrow> heap_ok prio (keys_of h) \<Longrightarrow> n < length (elements h) \<Longrightarrow>
     \<exists>rs h'. remove_n IsLess h n = Inr (rs, h') \<and> length rs = n
        \<and> mset rs + mset (keys_of h') = mset (keys_of h)
        \<and> sorted (map prio rs) \<and> (\<forall>r \<in> set rs. \<forall>k \<in> set (keys_of h'). prio r \<le> prio k)"
proof (induction n arbitrary: h)
  case 0
  then show ?case by simp
next
  case (Suc n)
  from Suc.prems have "2 \<le> length (elements h)" by simp
  from Remove_ok[OF cmp_prio Suc.prems(1) Suc.prems(2) this] obtain h1 where
    h1: "Remove IsLess h = Inr (keys_of h ! 0, h1)" "wf_heap h1" "heap_ok prio (keys_of h1)"
        "add_mset (keys_of h ! 0) (mset (keys_of h1)) = mset (keys_of h)"
        "\<forall>k \<in> set (keys_of h1). prio (keys_of h ! 0) \<le> prio k"
        "Suc (length (elements h1)) = length (elements h)"
    by blast
  let ?m = "keys_of h ! 0"
  from Suc.prems h1(6) have "n < length (elements h1)" by simp
  from Suc.IH[OF h1(2) h1(3) this] obtain rs h' where
    r: "remove_n IsLess h1 n = Inr (rs, h')" "length rs = n"
       "mset rs + mset (keys_of h') = mset (keys_of h1)"
       "sorted (map prio rs)" "\<forall>r \<in> set rs. \<forall>k \<in> set (keys_of h'). prio r \<le> prio k"
    by blast
  have sub: "set rs \<subseteq> set (keys_of h1)" "set (keys_of h') \<subseteq> set (keys_of h1)"
    using r(3) by (metis set_mset_mset set_mset_union Un_upper1 subsetI, metis set_mset_mset set_mset_union Un_upper2 subsetI)
  have run: "remove_n IsLess h (Suc n) = Inr (?m # rs, h')" using h1(1) r(1) by simp
  have "mset (?m # rs) + mset (keys_of h') = mset (keys_of h)"
    using r(3) h1(4) by simp
  moreover have "sorted (map prio (?m # rs))" using r(4) h1(5) sub(1) by auto
  moreover have "\<forall>r \<in> set (?m # rs). \<forall>k \<in> set (keys_of h'). prio r \<le> prio k"
    using r(5) h1(5) sub(2) by auto
  ultimately show ?case using run r(2) by (metis length_Cons)
qed


text \<open>
  C5.  For a comparer that compares a priority \<open>prio\<close> of the keys in a linear order, and
  keys none of which exceeds the maximum key: after inserting the keys \<open>ks\<close> into an empty
  heap, any \<open>n < length ks\<close> calls of \<^verbatim>\<open>Remove\<close> succeed, return \<open>n\<close> of the inserted keys
  and leave the others in the heap; the removed priorities are in nondecreasing order and
  each of them is less than or equal to every priority still in the heap.  Nothing is
  said about the order of keys with equal priorities.
\<close>

theorem Remove_returns_minimum:
  assumes "\<And>a b. IsLess a b = (prio a < prio b)"
    and "\<forall>k \<in> set ks. \<not> IsLess maximum_key k"
    and "n < length ks"
  shows "\<exists>rs rest. removal_order IsLess maximum_key ks n = Inr (rs, rest) \<and> length rs = n
           \<and> mset rs + mset rest = mset ks
           \<and> sorted (map prio rs) \<and> (\<forall>r \<in> set rs. \<forall>k \<in> set rest. prio r \<le> prio k)"
proof -
  have "heap_ok prio (keys_of (empty_heap :: 'a HandleBasedBinaryHeap))"
    by (simp add: empty_heap_ok)
  from insert_all_ok[OF assms(1) empty_heap_ok(1) this assms(2)] obtain h where
    h: "insert_all IsLess maximum_key empty_heap ks = Inr h" "wf_heap h" "heap_ok prio (keys_of h)"
       "mset (keys_of h) = mset ks" "length (elements h) = length ks"
  proof -
    assume a: "\<And>h. insert_all IsLess maximum_key empty_heap ks = Inr h \<Longrightarrow> wf_heap h \<Longrightarrow>
         heap_ok prio (keys_of h) \<Longrightarrow> mset (keys_of h) = mset ks \<Longrightarrow>
         length (elements h) = length ks \<Longrightarrow> thesis"
      and b: "\<exists>h'. insert_all IsLess maximum_key empty_heap ks = Inr h' \<and> wf_heap h' \<and>
         heap_ok prio (keys_of h') \<and>
         mset (keys_of h') = mset ks + mset (keys_of (empty_heap :: 'a HandleBasedBinaryHeap)) \<and>
         length (elements h') = length ks + length (elements (empty_heap :: 'a HandleBasedBinaryHeap))"
    have "length (elements (empty_heap :: 'a HandleBasedBinaryHeap)) = 0" by (simp add: empty_heap_def)
    with b a show thesis by (auto simp: empty_heap_ok(2))
  qed
  from assms(3) h(5) have "n < length (elements h)" by simp
  from remove_n_ok[OF assms(1) h(2) h(3) this] obtain rs h' where
    r: "remove_n IsLess h n = Inr (rs, h')" "length rs = n"
       "mset rs + mset (keys_of h') = mset (keys_of h)"
       "sorted (map prio rs)" "\<forall>r \<in> set rs. \<forall>k \<in> set (keys_of h'). prio r \<le> prio k"
    by blast
  have "removal_order IsLess maximum_key ks n = Inr (rs, keys_of h')"
    using h(1) r(1) by (simp add: removal_order_def)
  with r h(4) show ?thesis by simp
qed


theorem Remove_returns_minimum_witness:
  "removal_order (<) (2147483647::int) [5, 3, 8, 1, 9, 2, 7] 6 = Inr ([1, 2, 3, 5, 7, 8], [9])
   \<and> sorted (map id [1, 2, 3, 5, 7, 8 :: int])
   \<and> (6::nat) < length [5, 3, 8, 1, 9, 2, 7 :: int]"
proof -
  have run: "removal_order (<) (2147483647::int) [5, 3, 8, 1, 9, 2, 7] 6
               = Inr ([1, 2, 3, 5, 7, 8], [9])"
    by code_simp
  have "\<forall>k \<in> set [5, 3, 8, 1, 9, 2, 7 :: int]. \<not> 2147483647 < k" by simp
  moreover have "(6::nat) < length [5, 3, 8, 1, 9, 2, 7 :: int]" by simp
  ultimately obtain rs rest where
    r: "removal_order (<) (2147483647::int) [5, 3, 8, 1, 9, 2, 7] 6 = Inr (rs, rest)"
       "sorted (map id rs)"
    using Remove_returns_minimum[where IsLess = "(<)" and prio = id
        and maximum_key = "2147483647::int" and ks = "[5, 3, 8, 1, 9, 2, 7]" and n = 6]
    by auto
  from r(1) run have "rs = [1, 2, 3, 5, 7, 8]" by simp
  with r(2) run show ?thesis by simp
qed

text \<open>
  C5, the order among equal priorities.  The heap compares keys with the comparer only.
  With keys that carry a payload beside the priority and a comparer that looks at the
  priority alone, three keys of priority 4 are inserted with payloads 1, 2, 3: the first
  two calls of \<^verbatim>\<open>Remove\<close> return the keys inserted first and third, and the key inserted
  second is still in the heap.
\<close>

theorem Remove_equal_priorities_counterexample:
  "removal_order (\<lambda>a b. fst a < fst b) (2147483647::int, 0::nat) [(4, 1), (4, 2), (4, 3)] 2
     = Inr ([(4, 1), (4, 3)], [(4, 2)])"
  by code_simp

text \<open>
  C10.  \<^verbatim>\<open>Remove\<close> on a heap with a single element: after \<^verbatim>\<open>pop_back\<close> the vector is empty and
  \<^verbatim>\<open>elements_[0]->SetIndex(0)\<close> reads slot 0 of it.  The heap obtained by inserting the key
  5 into an empty heap has one element, and \<^verbatim>\<open>Remove\<close> on it accesses the vector outside
  its bounds.
\<close>

theorem Remove_sole_element_out_of_bounds:
  "\<exists>p h. Insert (<) (2147483647::int) empty_heap 5 = Inr (p, h) \<and> HeapSize h = 1
           \<and> Remove (<) h = Inl UndefinedBehaviour"
proof -
  have "heap_ok id (keys_of (empty_heap :: int HandleBasedBinaryHeap))"
    by (simp add: empty_heap_ok)
  moreover have "\<not> (2147483647::int) < 5" by simp
  ultimately obtain p h where
    h: "Insert (<) (2147483647::int) empty_heap 5 = Inr (p, h)" "wf_heap h"
       "length (elements h) = Suc (length (elements (empty_heap :: int HandleBasedBinaryHeap)))"
    using Insert_ok[where IsLess = "(<)" and prio = id
        and h = "empty_heap :: int HandleBasedBinaryHeap" and maximum_key = 2147483647 and key = 5]
    by (auto simp: empty_heap_ok(1))
  have len: "length (elements h) = 1" using h(3) by (simp add: empty_heap_def)
  from Remove_singleton[OF h(2) len] h(1) len show ?thesis by (auto simp: HeapSize_def)
qed


section \<open>Properties of the cluster labelling\<close>

text \<open>
  C6.  A call of \<^verbatim>\<open>HKProper\<close> in the sweep that does not return the end of the alias chain.
  The cube has 3 rows, 3 columns and 2 slices; the flagged sites are (2,0,0), (0,1,0),
  (1,1,0) and (1,2,1).  Site (1,1,0) merges the clusters 1 and 2: the last call of
  \<^verbatim>\<open>HKProper\<close> before the merge was for label 2 and left the static variables at (2, 2),
  and the merge sets \<open>n(2) = -1\<close>.  When the sweep reaches the next flagged site (1,2,1),
  the first call of \<^verbatim>\<open>PreviousNeighbours\<close> is \<^verbatim>\<open>HKProper(l(0,1,0), n)\<close> with \<open>l(0,1,0) = 2\<close>: the
  chain of 2 ends at the proper label 1, but the call returns the remembered value 2.
\<close>

theorem HKProper_stale_after_merge:
  "\<exists>s. sweep_until 1 2 1
          (initial_state (\<lambda>x. [0, 0, 0]) (\<lambda>x. [0, 0, 0])
             \<lparr>n_rows = 3, n_cols = 3, n_slices = 2,
               mem = [0, 0, 1, 1, 1, 0, 0, 0, 0,
                      0, 0, 0, 0, 0, 0, 0, 1, 0]\<rparr>) = ret s
       \<and> cube_at (cube s) 1 2 1 = ret 1
       \<and> hd (previous_sites (cube s) 1 2 1) = (True, 0, 1, 0)
       \<and> cube_at (cube s) 0 1 0 = ret 2
       \<and> follow_links (links s) 2 = ret 1
       \<and> HKProper 2 (links s) (statics s) = ret (2, links s, statics s)"
  by (rule exI[of _ "\<lparr>cube = \<lparr>n_rows = 3, n_cols = 3, n_slices = 2,
                              mem = [0, 0, 1, 2, 1, 0, 0, 0, 0,
                                     0, 0, 0, 0, 0, 0, 0, 1, 0]\<rparr>,
                      links = [0, 3, - 1] @ replicate 6 0,
                      bbox_min = replicate 9 [0, 0, 0],
                      bbox_max = (replicate 9 [0, 0, 0])[1 := [2, 1, 0]],
                      largest_label = 2, statics = (2, 2)\<rparr>"]) code_simp


subsection \<open>The output of the labelling\<close>

lemma bind_comp_ret [simp]: "bind_comp (ret x) f = f x"
  by (simp add: bind_comp_def ret_def)

lemma bind_comp_eq_ret:
  "bind_comp m f = ret y \<longleftrightarrow> (\<exists>x. m = ret x \<and> f x = ret y)"
  by (auto simp: bind_comp_def ret_def split: option.splits sum.splits)

lemma ret_eq [simp]: "ret x = ret y \<longleftrightarrow> x = y"
  by (simp add: ret_def)

lemma throw_neq_ret [simp]: "throw e \<noteq> ret x" "ret x \<noteq> throw e"
  by (simp_all add: ret_def throw_def)

lemma follow_links_root_aux:
  "follow_links n x = Some y \<Longrightarrow>
     \<forall>p. y = Inr p \<longrightarrow> 0 \<le> p \<and> p < int (length n) \<and> 0 \<le> n ! nat p"
  apply (erule follow_links.raw_induct[rotated])
  apply (auto split: if_splits)
  done

lemma follow_links_root:
  "follow_links n x = ret p \<Longrightarrow> 0 \<le> p \<and> p < int (length n) \<and> 0 \<le> n ! nat p"
  using follow_links_root_aux[of n x "Inr p"] by (simp add: ret_def)

lemma follow_links_fix:
  "0 \<le> p \<Longrightarrow> p < int (length n) \<Longrightarrow> 0 \<le> n ! nat p \<Longrightarrow> follow_links n p = ret p"
  by (subst follow_links.simps) (simp add: ret_def)

lemma follow_links_neq_aux:
  "follow_links n x = Some y \<Longrightarrow>
     \<forall>p. y = Inr p \<and> p \<noteq> x \<longrightarrow> 1 \<le> p"
  apply (erule follow_links.raw_induct[rotated])
  apply (auto split: if_splits)
  apply (metis add.inverse_inverse int_one_le_iff_zero_less neg_0_less_iff_less)
  done

lemma follow_links_neq:
  assumes "follow_links n x = ret p" "p \<noteq> x"
  shows "1 \<le> p" "0 \<le> x" "x < int (length n)" "n ! nat x < 0"
proof -
  show "1 \<le> p" using follow_links_neq_aux[of n x "Inr p"] assms by (simp add: ret_def)
  have a: "\<not> (x < 0 \<or> int (length n) \<le> x)"
    using assms(1) by (subst (asm) follow_links.simps) (auto simp: ret_def split: if_splits)
  then show "0 \<le> x" "x < int (length n)" by auto
  show "n ! nat x < 0"
    using assms a by (subst (asm) follow_links.simps) (auto simp: ret_def split: if_splits)
qed

lemma follow_links_zero: "follow_links n x = ret 0 \<Longrightarrow> x = 0"
  using follow_links_neq(1)[of n x 0] by auto

lemma same_ends_refl [simp]: "same_ends n n"
  by (simp add: same_ends_def)

lemma same_ends_trans: "same_ends n n1 \<Longrightarrow> same_ends n1 n2 \<Longrightarrow> same_ends n n2"
  by (simp add: same_ends_def)

lemma roots_kept_refl [simp]: "roots_kept n n"
  by (simp add: roots_kept_def)

lemma roots_kept_trans: "roots_kept n n1 \<Longrightarrow> roots_kept n1 n2 \<Longrightarrow> roots_kept n n2"
  by (simp add: roots_kept_def)

lemma HKProper_cases:
  "HKProper x n c = ret (p, n', c') \<Longrightarrow>
     (fst c = x \<and> p = snd c \<and> n' = n \<and> c' = c) \<or>
     (fst c \<noteq> x \<and> follow_links n x = ret p
        \<and> n' = (if p \<noteq> x then n[nat x := - p] else n) \<and> c' = (x, p))"
  by (auto simp: HKProper_def bind_comp_eq_ret split: if_splits)

lemma compress_roots_kept:
  assumes "follow_links n x = ret p" "p \<noteq> x"
  shows "roots_kept n (n[nat x := - p])"
  using follow_links_neq[OF assms]
  by (auto simp: roots_kept_def nth_list_update)

lemma compress_valid:
  assumes "follow_links n x = ret p" "p \<noteq> x"
  shows "follow_links (n[nat x := - p]) x = ret p"
proof -
  note f = follow_links_neq[OF assms]
  note r = follow_links_root[OF assms(1)]
  have ne: "nat p \<noteq> nat x" using assms(2) f(2) r by auto
  have "follow_links (n[nat x := - p]) p = ret p"
    using r ne by (intro follow_links_fix) simp_all
  then show ?thesis
    using f by (subst follow_links.simps) simp
qed

lemma compress_same_ends_aux:
  assumes "follow_links n x = ret p" "p \<noteq> x"
  shows "follow_links m y = Some r \<Longrightarrow>
           m = n[nat x := - p] \<longrightarrow> (\<forall>q. r = Inr q \<longrightarrow> follow_links n y = ret q)"
proof (erule follow_links.raw_induct[rotated], intro impI allI)
  fix f m y r q
  assume IH: "\<And>a b z. f a b = Some z \<Longrightarrow>
                 a = n[nat x := - p] \<longrightarrow> (\<forall>q. z = Inr q \<longrightarrow> follow_links n b = ret q)"
    and step: "(if y < 0 \<or> int (length m) \<le> y then Some (Inl LogicError)
                else if m ! nat y < 0 then f m (- m ! nat y) else Some (Inr y)) = Some r"
    and m: "m = n[nat x := - p]" and r: "r = Inr q"
  note fx = follow_links_neq[OF assms]
  note rt = follow_links_root[OF assms(1)]
  from step r have inr: "\<not> (y < 0 \<or> int (length m) \<le> y)" by (auto split: if_splits)
  then have yr: "0 \<le> y" "y < int (length n)" using m by auto
  show "follow_links n y = ret q"
  proof (cases "m ! nat y < 0")
    case True
    with step inr r have fr: "f m (- m ! nat y) = Some (Inr q)" by simp
    from IH[OF fr] m have e: "follow_links n (- m ! nat y) = ret q" by simp
    show ?thesis
    proof (cases "y = x")
      case True
      then have "m ! nat y = - p" using m fx by simp
      with e have "follow_links n p = ret q" by simp
      moreover have "follow_links n p = ret p" using rt by (intro follow_links_fix) simp_all
      ultimately have "q = p" by simp
      with assms True show ?thesis by simp
    next
      case False
      then have "nat y \<noteq> nat x" using yr fx by auto
      then have same: "m ! nat y = n ! nat y" using m by simp
      with True e yr show ?thesis by (subst follow_links.simps) simp
    qed
  next
    case False
    with step inr r have q: "q = y" by simp
    have "y \<noteq> x"
    proof
      assume "y = x"
      then have "m ! nat y = - p" using m fx by simp
      with fx(1) False show False by simp
    qed
    then have "nat y \<noteq> nat x" using yr fx by auto
    then have "m ! nat y = n ! nat y" using m by simp
    with False yr q show ?thesis by (simp add: follow_links_fix)
  qed
qed

lemma compress_same_ends:
  assumes "follow_links n x = ret p" "p \<noteq> x"
  shows "same_ends n (n[nat x := - p])"
  unfolding same_ends_def
  using compress_same_ends_aux[OF assms] by (auto simp: ret_def)

lemma HKProper_kept:
  assumes "HKProper x n c = ret (p, n', c')"
  shows "roots_kept n n'" "same_ends n n'" "snd c' = p"
  using HKProper_cases[OF assms] compress_roots_kept[of n x p] compress_same_ends[of n x p]
  by (auto split: if_splits)

lemma HKProper_miss:
  assumes "HKProper x n c = ret (p, n', c')" "fst c \<noteq> x"
  shows "follow_links n x = ret p" "cache_valid n' c'"
proof -
  from HKProper_cases[OF assms(1)] assms(2) have
    f: "follow_links n x = ret p" and n': "n' = (if p \<noteq> x then n[nat x := - p] else n)"
    and c': "c' = (x, p)" by auto
  show "follow_links n x = ret p" by fact
  show "cache_valid n' c'"
    using f n' c' compress_valid[of n x p] by (auto simp: cache_valid_def)
qed

lemma HKProper_valid:
  assumes "HKProper x n c = ret (p, n', c')" "cache_valid n c"
  shows "follow_links n x = ret p" "cache_valid n' c'"
proof -
  from HKProper_cases[OF assms(1)] show "follow_links n x = ret p"
    using assms(2) by (auto simp: cache_valid_def)
  from HKProper_cases[OF assms(1)] show "cache_valid n' c'"
    using assms HKProper_miss(2)[OF assms(1)] by auto
qed

lemma transform_Cons_ret:
  "transform (x # xs) n c = ret (ps, n', c') \<longleftrightarrow>
     (\<exists>p n1 c1 ps1. HKProper x n c = ret (p, n1, c1) \<and> transform xs n1 c1 = ret (ps1, n', c')
        \<and> ps = p # ps1)"
  by (cases c') (auto simp: bind_comp_eq_ret split: prod.splits)

lemma transform_kept:
  "transform xs n c = ret (ps, n', c') \<Longrightarrow>
     length ps = length xs \<and> roots_kept n n' \<and> same_ends n n' \<and> (xs \<noteq> [] \<longrightarrow> snd c' = last ps)"
proof (induction xs arbitrary: n c ps)
  case Nil
  then show ?case by simp
next
  case (Cons x xs)
  from Cons.prems obtain p n1 c1 ps1 where
    h: "HKProper x n c = ret (p, n1, c1)" and t: "transform xs n1 c1 = ret (ps1, n', c')"
    and ps: "ps = p # ps1"
    unfolding transform_Cons_ret by blast
  note k = HKProper_kept[OF h]
  note ih = Cons.IH[OF t]
  have "snd c' = last ps"
  proof (cases xs)
    case Nil
    with t ps k show ?thesis by simp
  next
    case (Cons a list)
    with ih ps show ?thesis by auto
  qed
  with k ih ps show ?case
    by (auto intro: roots_kept_trans same_ends_trans)
qed

lemma transform_valid:
  "transform xs n c = ret (ps, n', c') \<Longrightarrow> cache_valid n c \<Longrightarrow>
     cache_valid n' c' \<and> (\<forall>m < length xs. follow_links n (xs ! m) = ret (ps ! m))"
proof (induction xs arbitrary: n c ps)
  case Nil
  then show ?case by simp
next
  case (Cons x xs)
  from Cons.prems(1) obtain p n1 c1 ps1 where
    h: "HKProper x n c = ret (p, n1, c1)" and t: "transform xs n1 c1 = ret (ps1, n', c')"
    and ps: "ps = p # ps1"
    unfolding transform_Cons_ret by blast
  note v = HKProper_valid[OF h Cons.prems(2)]
  note k = HKProper_kept[OF h]
  note ih = Cons.IH[OF t v(2)]
  have "follow_links n ((x # xs) ! m) = ret (ps ! m)" if "m < length (x # xs)" for m
  proof (cases m)
    case 0
    with v ps show ?thesis by simp
  next
    case (Suc m')
    with that ih have "follow_links n1 (xs ! m') = ret (ps1 ! m')" by simp
    with k(2) have "follow_links n (xs ! m') = ret (ps1 ! m')" by (simp add: same_ends_def)
    with Suc ps show ?thesis by simp
  qed
  with ih show ?case by blast
qed

lemma transform_first_miss:
  assumes "transform xs n c = ret (ps, n', c')" "xs \<noteq> []" "hd xs \<noteq> fst c"
  shows "cache_valid n' c'" "\<forall>m < length xs. follow_links n (xs ! m) = ret (ps ! m)"
proof -
  obtain x xs' where xs: "xs = x # xs'" using assms(2) by (cases xs) auto
  from assms(1)[unfolded xs transform_Cons_ret] obtain p n1 c1 ps1 where
    h: "HKProper x n c = ret (p, n1, c1)" and t: "transform xs' n1 c1 = ret (ps1, n', c')"
    and ps: "ps = p # ps1"
    by blast
  from assms(3) xs have "fst c \<noteq> x" by auto
  note v = HKProper_miss[OF h this]
  note k = HKProper_kept[OF h]
  note tv = transform_valid[OF t v(2)]
  show "cache_valid n' c'" using tv by simp
  show "\<forall>m < length xs. follow_links n (xs ! m) = ret (ps ! m)"
  proof (intro allI impI)
    fix m assume "m < length xs"
    show "follow_links n (xs ! m) = ret (ps ! m)"
    proof (cases m)
      case 0
      with v ps xs show ?thesis by simp
    next
      case (Suc m')
      with \<open>m < length xs\<close> xs tv have "follow_links n1 (xs' ! m') = ret (ps1 ! m')" by simp
      with k(2) have "follow_links n (xs' ! m') = ret (ps1 ! m')" by (simp add: same_ends_def)
      with Suc ps xs show ?thesis by simp
    qed
  qed
qed

lemma transform_last_miss:
  "transform xs n c = ret (ps, n', c') \<Longrightarrow> xs \<noteq> [] \<Longrightarrow> last xs \<noteq> fst c \<Longrightarrow>
     cache_valid n' c'"
proof (induction xs arbitrary: n c ps)
  case Nil
  then show ?case by simp
next
  case (Cons x xs)
  from Cons.prems(1) obtain p n1 c1 ps1 where
    h: "HKProper x n c = ret (p, n1, c1)" and t: "transform xs n1 c1 = ret (ps1, n', c')"
    and ps: "ps = p # ps1"
    unfolding transform_Cons_ret by blast
  show ?case
  proof (cases "fst c = x")
    case True
    with HKProper_cases[OF h] have same: "n1 = n" "c1 = c" by auto
    show ?thesis
    proof (cases xs)
      case Nil
      with Cons.prems(3) True show ?thesis by simp
    next
      case (Cons a list)
      with Cons.prems(3) have "last xs \<noteq> fst c" by simp
      with Cons.IH[OF t] same Cons show ?thesis by simp
    qed
  next
    case False
    from HKProper_miss(2)[OF h False] transform_valid[OF t] show ?thesis by simp
  qed
qed

lemma cube_at_ret:
  "cube_at c i j k = ret x \<longleftrightarrow>
     i < n_rows c \<and> j < n_cols c \<and> k < n_slices c \<and> x = mem c ! cube_index c i j k"
  by (auto simp: cube_at_def)

lemma cube_index_bound:
  assumes "i < n_rows c" "j < n_cols c" "k < n_slices c"
  shows "cube_index c i j k < n_elem c"
  using linear_index_bound[OF assms]
  by (simp add: cube_index_def n_elem_def mult.commute mult.left_commute)

lemma read_labels_length:
  "read_labels c out sites = ret xs \<Longrightarrow> length xs = length sites"
proof (induction sites arbitrary: xs)
  case Nil
  then show ?case by simp
next
  case (Cons e sites)
  obtain cond i j k where e: "e = (cond, i, j, k)" by (cases e) auto
  from Cons.prems e obtain x xs' where
    "read_labels c out sites = ret xs'" "xs = x # xs'"
    by (auto simp: bind_comp_eq_ret)
  with Cons.IH show ?case by simp
qed

lemma read_labels_last:
  "read_labels c out sites = ret xs \<Longrightarrow> sites \<noteq> [] \<Longrightarrow>
     last xs = (case last sites of (cond, i, j, k) \<Rightarrow>
                  if cond then mem c ! cube_index c i j k else out)"
proof (induction sites arbitrary: xs)
  case Nil
  then show ?case by simp
next
  case (Cons e sites)
  obtain cond i j k where e: "e = (cond, i, j, k)" by (cases e) auto
  from Cons.prems(1) e obtain x xs' where
    x: "(if cond then cube_at c i j k else ret out) = ret x"
    and r: "read_labels c out sites = ret xs'" and xs: "xs = x # xs'"
    by (auto simp: bind_comp_eq_ret)
  show ?case
  proof (cases sites)
    case Nil
    with r have "xs' = []" by simp
    with x xs e Nil show ?thesis by (auto simp: cube_at_ret split: if_splits)
  next
    case (Cons a list)
    with read_labels_length[OF r] have "xs' \<noteq> []" by auto
    with Cons.IH[OF r] xs Cons show ?thesis by simp
  qed
qed

lemma read_labels_outside:
  "read_labels c out sites = ret xs \<Longrightarrow> \<forall>e \<in> set sites. \<not> fst e \<Longrightarrow>
     xs = replicate (length sites) out"
proof (induction sites arbitrary: xs)
  case Nil
  then show ?case by simp
next
  case (Cons e sites)
  obtain cond i j k where e: "e = (cond, i, j, k)" by (cases e) auto
  from Cons.prems e have nc: "\<not> cond" by simp
  from Cons.prems(1) e nc obtain xs' where
    r: "read_labels c out sites = ret xs'" and xs: "xs = out # xs'"
    by (auto simp: bind_comp_eq_ret)
  from Cons.IH[OF r] Cons.prems(2) xs show ?case by simp
qed

lemma previous_sites_facts:
  "length (previous_sites c i j k) = 13"
  "last (previous_sites c i j k) = (i \<noteq> 0, i - 1, j, k)"
  "\<forall>e \<in> set (previous_sites c 0 0 0). \<not> fst e"
  by (simp_all add: previous_sites_def Let_def)

lemma links_ok_kept: "links_ok n \<Longrightarrow> roots_kept n n' \<Longrightarrow> links_ok n'"
  by (auto simp: links_ok_def roots_kept_def)

lemma follow_links_in_range:
  "follow_links n x = ret p \<Longrightarrow> 0 \<le> x \<and> x < int (length n)"
  by (subst (asm) follow_links.simps) (auto simp: ret_def split: if_splits)

lemma follow_links_0: "links_ok n \<Longrightarrow> follow_links n 0 = ret p \<Longrightarrow> p = 0"
proof -
  assume l: "links_ok n" and f: "follow_links n 0 = ret p"
  from follow_links_in_range[OF f] have "0 < length n" by simp
  with l have "n ! 0 = 0" by (simp add: links_ok_def)
  with \<open>0 < length n\<close> have "follow_links n 0 = ret 0" by (simp add: follow_links_fix)
  with f show ?thesis by simp
qed

lemma follow_links_1: "links_ok n \<Longrightarrow> follow_links n 1 = ret p \<Longrightarrow> p = 1"
proof -
  assume l: "links_ok n" and f: "follow_links n 1 = ret p"
  from follow_links_in_range[OF f] have "1 < length n" by simp
  with l have "0 \<le> n ! 1" by (simp add: links_ok_def)
  with \<open>1 < length n\<close> have "follow_links n 1 = ret 1" by (simp add: follow_links_fix)
  with f show ?thesis by simp
qed

lemma statics_after_update:
  assumes v: "cache_valid n2 c2" and l2: "links_ok n2" and l': "links_ok n'"
    and len: "length n' = length n2"
    and root2: "0 \<le> lab" "lab < int (length n2)" "0 \<le> n2 ! nat lab"
    and root': "0 \<le> n' ! nat lab"
  shows "cache_valid n' c2 \<or> (fst c2 \<noteq> 0 \<and> fst c2 \<noteq> 1 \<and> lab \<noteq> fst c2)"
proof -
  consider "fst c2 = 0" | "fst c2 = 1" | "fst c2 = lab" | "fst c2 \<noteq> 0 \<and> fst c2 \<noteq> 1 \<and> lab \<noteq> fst c2"
    by blast
  then show ?thesis
  proof cases
    case 1
    with v have f: "follow_links n2 0 = ret (snd c2)" by (simp add: cache_valid_def)
    from follow_links_0[OF l2 f] have s: "snd c2 = 0" .
    from follow_links_in_range[OF f] len have "0 < length n'" by simp
    with l' have "follow_links n' 0 = ret 0" by (simp add: links_ok_def follow_links_fix)
    with 1 s show ?thesis by (simp add: cache_valid_def)
  next
    case 2
    with v have f: "follow_links n2 1 = ret (snd c2)" by (simp add: cache_valid_def)
    from follow_links_1[OF l2 f] have s: "snd c2 = 1" .
    from follow_links_in_range[OF f] len have "1 < length n'" by simp
    with l' have "follow_links n' 1 = ret 1" by (simp add: links_ok_def follow_links_fix)
    with 2 s show ?thesis by (simp add: cache_valid_def)
  next
    case 3
    with v have f: "follow_links n2 lab = ret (snd c2)" by (simp add: cache_valid_def)
    moreover have "follow_links n2 lab = ret lab" using root2 by (simp add: follow_links_fix)
    ultimately have s: "snd c2 = lab" by simp
    have "follow_links n' lab = ret lab" using root2 root' len by (simp add: follow_links_fix)
    with 3 s show ?thesis by (simp add: cache_valid_def)
  next
    case 4
    then show ?thesis by simp
  qed
qed

lemma fold_update_length [simp]:
  "length (fold (\<lambda>x m. m[f x := a]) xs m) = length m"
  by (induction xs arbitrary: m) simp_all

lemma fold_update_nth:
  "q < length m \<Longrightarrow>
     fold (\<lambda>x m. m[f x := a]) xs m ! q = (if q \<in> f ` set xs then a else m ! q)"
proof (induction xs arbitrary: m)
  case Nil
  then show ?case by simp
next
  case (Cons x xs)
  then show ?case by (auto simp: nth_list_update)
qed

lemma site_inv_statics_ok: "site_inv i j k s \<Longrightarrow> statics_ok (links s) (statics s)"
  by (auto simp: site_inv_def statics_ok_def)

lemma statics_ok_site_inv: "statics_ok (links s) (statics s) \<Longrightarrow> site_inv 0 j k s"
  by (auto simp: site_inv_def statics_ok_def)

lemma label_site_ret:
  assumes "label_site i j k s = ret s'"
  shows "\<exists>flag. cube_at (cube s) i j k = ret flag \<and>
          (if flag = 0 then s' = s
           else \<exists>nnl n1 c1 nnl' n2 c2.
                  PreviousNeighbours i j k (cube s) (links s) (statics s) = ret (nnl, n1, c1)
                  \<and> transform nnl n1 c1 = ret (nnl', n2, c2)
                  \<and> assign_label i j k s nnl' n2 c2 = ret s')"
  using assms unfolding label_site_def
  by (auto simp: bind_comp_eq_ret split: prod.splits if_splits)

lemma assign_label_ret:
  assumes "assign_label i j k s nnl n2 c2 = ret s'"
  shows "(case sort (remdups (filter (\<lambda>x. x \<noteq> 0) nnl)) of
            [] \<Rightarrow> 0 \<le> largest_label s + 1 \<and> largest_label s + 1 < int (length n2)
                  \<and> cube s' = cube_set (cube s) i j k (largest_label s + 1)
                  \<and> links s' = n2[nat (largest_label s + 1) := n2 ! nat (largest_label s + 1) + 1]
                  \<and> largest_label s' = largest_label s + 1 \<and> statics s' = c2
          | lab # tail \<Rightarrow>
                  cube s' = cube_set (cube s) i j k lab
                  \<and> links s' = fold (\<lambda>x m. m[nat x := - lab]) tail
                       (n2[nat lab := n2 ! nat lab + (1 + sum_list (map (\<lambda>x. n2 ! nat x) tail))])
                  \<and> largest_label s' = largest_label s \<and> statics s' = c2)"
  using assms unfolding assign_label_def
  by (auto simp: Let_def split: list.splits if_splits)

lemma label_site_step:
  assumes run: "label_site i j k s = ret s'" and inv: "sweep_inv s" and site: "site_inv i j k s"
  shows "sweep_inv s' \<and> site_inv (Suc i) j k s' \<and> same_shape s s'
         \<and> (cube_index (cube s) i j k \<noteq> 0 \<longrightarrow> mem (cube s') ! 0 = mem (cube s) ! 0)"
proof -
  define c where "c = cube s"
  define n where "n = links s"
  define st where "st = statics s"
  from label_site_ret[OF run] obtain flag where fl: "cube_at c i j k = ret flag"
    and rest: "if flag = 0 then s' = s
           else \<exists>nnl n1 c1 nnl' n2 c2.
                  PreviousNeighbours i j k c n st = ret (nnl, n1, c1)
                  \<and> transform nnl n1 c1 = ret (nnl', n2, c2)
                  \<and> assign_label i j k s nnl' n2 c2 = ret s'"
    unfolding c_def n_def st_def by blast
  from fl have rng: "i < n_rows c" "j < n_cols c" "k < n_slices c"
    and flag: "flag = mem c ! cube_index c i j k"
    by (simp_all add: cube_at_ret)
  from inv have lok: "links_ok n" and sok: "statics_ok n st" and ll: "0 \<le> largest_label s"
    and len: "length (mem c) = n_elem c"
    by (simp_all add: sweep_inv_def c_def n_def st_def)
  have idx: "cube_index c i j k < length (mem c)"
    using cube_index_bound[OF rng] len by simp
  show ?thesis
  proof (cases "flag = 0")
    case True
    with rest have s': "s' = s" by simp
    have "site_inv (Suc i) j k s"
      using site True flag by (auto simp: site_inv_def c_def)
    with s' inv show ?thesis by (simp add: same_shape_def)
  next
    case False
    with rest obtain nnl n1 c1 nnl' n2 c2 where
      pn: "PreviousNeighbours i j k c n st = ret (nnl, n1, c1)"
      and tr: "transform nnl n1 c1 = ret (nnl', n2, c2)"
      and body: "assign_label i j k s nnl' n2 c2 = ret s'"
      by auto
    from pn obtain labels where rd: "read_labels c 0 (previous_sites c i j k) = ret labels"
      and t0: "transform labels n st = ret (nnl, n1, c1)"
      by (auto simp: PreviousNeighbours_def bind_comp_eq_ret)
    have l13: "length labels = 13" and lne: "labels \<noteq> []"
      using read_labels_length[OF rd] by (auto simp: previous_sites_facts)
    have lastl: "last labels = (if i \<noteq> 0 then mem c ! cube_index c (i - 1) j k else 0)"
      using read_labels_last[OF rd] by (simp add: previous_sites_facts previous_sites_def Let_def)
    have v1: "cache_valid n1 c1"
    proof (cases "cache_valid n st")
      case True
      with transform_valid[OF t0] show ?thesis by simp
    next
      case False
      with site have "fst st \<noteq> 0" "fst st \<noteq> 1"
        "i \<noteq> 0 \<longrightarrow> mem c ! cube_index c (i - 1) j k \<noteq> fst st"
        by (auto simp: site_inv_def c_def n_def st_def)
      with lastl have "last labels \<noteq> fst st" by auto
      from transform_last_miss[OF t0 lne this] show ?thesis .
    qed
    note k0 = transform_kept[OF t0]
    note k1 = transform_kept[OF tr]
    note tv = transform_valid[OF tr v1]
    have nne: "nnl \<noteq> []" using k0 l13 by auto
    have v2: "cache_valid n2 c2" using tv by simp
    have lok1: "links_ok n1" using lok k0 links_ok_kept by blast
    have lok2: "links_ok n2" using lok1 k1 links_ok_kept by blast
    have roots: "0 \<le> x \<and> x < int (length n2) \<and> 0 \<le> n2 ! nat x" if "x \<in> set nnl'" for x
    proof -
      from that obtain m where m: "m < length nnl'" "nnl' ! m = x" by (auto simp: in_set_conv_nth)
      with k1 tv have f: "follow_links n1 (nnl ! m) = ret x" by auto
      from follow_links_root[OF f] k1 show ?thesis by (auto simp: roots_kept_def)
    qed
    define u where "u = sort (remdups (filter (\<lambda>x. x \<noteq> 0) nnl'))"
    have uset: "set u = {x \<in> set nnl'. x \<noteq> 0}" by (auto simp: u_def)
    have usorted: "sorted u" and udist: "distinct u" by (simp_all add: u_def)
    note body' = assign_label_ret[OF body, folded u_def c_def]
    have cube_s': "cube s' = cube_set c i j k lab \<Longrightarrow>
        n_rows (cube s') = n_rows c \<and> n_cols (cube s') = n_cols c \<and> n_slices (cube s') = n_slices c
        \<and> length (mem (cube s')) = length (mem c)
        \<and> mem (cube s') ! cube_index c i j k = lab
        \<and> (cube_index c i j k \<noteq> 0 \<longrightarrow> mem (cube s') ! 0 = mem c ! 0)" for lab
      using idx by (simp add: cube_set_def)
    show ?thesis
    proof (cases u)
      case Nil
      define lab where "lab = largest_label s + 1"
      from body' Nil have g: "0 \<le> lab" "lab < int (length n2)"
        and s': "cube s' = cube_set c i j k lab" "links s' = n2[nat lab := n2 ! nat lab + 1]"
                "largest_label s' = lab" "statics s' = c2"
        by (simp_all add: lab_def)
      have lab1: "1 \<le> lab" using ll by (simp add: lab_def)
      have "last nnl' = 0"
      proof -
        have "nnl' \<noteq> []" using k1 nne by auto
        then have "last nnl' \<in> set nnl'" by simp
        with uset Nil show ?thesis by auto
      qed
      with k1 nne have "snd c2 = 0" by simp
      with v2 have "follow_links n2 (fst c2) = ret 0" by (simp add: cache_valid_def)
      then have c20: "fst c2 = 0" by (rule follow_links_zero)
      let ?n' = "n2[nat lab := n2 ! nat lab + 1]"
      have lok': "links_ok ?n'"
        using lok2 lab1 g by (auto simp: links_ok_def nth_list_update)
      have "0 < length ?n'" using g by auto
      with lok' have "follow_links ?n' 0 = ret 0" by (simp add: links_ok_def follow_links_fix)
      with c20 \<open>snd c2 = 0\<close> have v': "cache_valid ?n' c2" by (simp add: cache_valid_def)
      from cube_s'[of lab] s' have cs: "n_rows (cube s') = n_rows c \<and> n_cols (cube s') = n_cols c
          \<and> n_slices (cube s') = n_slices c \<and> length (mem (cube s')) = length (mem c)
          \<and> (cube_index c i j k \<noteq> 0 \<longrightarrow> mem (cube s') ! 0 = mem c ! 0)" by simp
      have "sweep_inv s'"
        using lok' v' g cs len s' by (simp add: sweep_inv_def statics_ok_def n_elem_def)
      moreover have "site_inv (Suc i) j k s'" using v' s' by (simp add: site_inv_def)
      ultimately show ?thesis using cs by (simp add: same_shape_def c_def)
    next
      case (Cons lab tail)
      have lab_in: "lab \<in> set nnl'" "lab \<noteq> 0" using uset Cons by auto
      note rl = roots[OF lab_in(1)]
      have lab1: "1 \<le> lab" using rl lab_in(2) by simp
      have tail_gt: "x \<in> set tail \<Longrightarrow> lab < x" for x
        using usorted udist Cons by (auto simp: less_le)
      have tail_roots: "x \<in> set tail \<Longrightarrow> 0 \<le> n2 ! nat x \<and> x < int (length n2)" for x
        using roots[of x] uset Cons by auto
      define n' where "n' = fold (\<lambda>x m. m[nat x := - lab]) tail
                 (n2[nat lab := n2 ! nat lab + (1 + sum_list (map (\<lambda>x. n2 ! nat x) tail))])"
      have s': "cube s' = cube_set c i j k lab \<and> links s' = n' \<and> statics s' = c2
                \<and> largest_label s' = largest_label s"
        using body' Cons by (simp add: n'_def)
      have len': "length n' = length n2" by (simp add: n'_def)
      have sum0: "0 \<le> sum_list (map (\<lambda>x. n2 ! nat x) tail)"
        using tail_roots by (intro sum_list_nonneg) auto
      have notin: "nat lab \<notin> nat ` set tail"
      proof
        assume "nat lab \<in> nat ` set tail"
        then obtain x where "x \<in> set tail" "nat x = nat lab" by auto
        with tail_gt[of x] rl show False by auto
      qed
      have nlab: "n' ! nat lab = n2 ! nat lab + (1 + sum_list (map (\<lambda>x. n2 ! nat x) tail))"
      proof -
        have "nat lab < length n2" using rl by auto
        with notin show ?thesis by (simp add: n'_def fold_update_nth)
      qed
      have nother: "q < length n2 \<Longrightarrow> q \<noteq> nat lab \<Longrightarrow> q \<notin> nat ` set tail \<Longrightarrow> n' ! q = n2 ! q" for q
        by (simp add: n'_def fold_update_nth)
      have t0': "0 \<notin> nat ` set tail"
      proof
        assume "0 \<in> nat ` set tail"
        then obtain x where "x \<in> set tail" "nat x = 0" by auto
        with tail_gt[of x] lab1 show False by auto
      qed
      have t1': "1 \<notin> nat ` set tail"
      proof
        assume "1 \<in> nat ` set tail"
        then obtain x where "x \<in> set tail" "nat x = 1" by auto
        with tail_gt[of x] lab1 show False by auto
      qed
      have lok': "links_ok n'"
        unfolding links_ok_def
      proof (intro conjI impI)
        assume "0 < length n'"
        then have "n' ! 0 = n2 ! 0" using lab1 t0' len' by (intro nother) auto
        with lok2 \<open>0 < length n'\<close> len' show "n' ! 0 = 0" by (simp add: links_ok_def)
      next
        assume a: "1 < length n'"
        show "0 \<le> n' ! 1"
        proof (cases "nat lab = 1")
          case True
          with nlab sum0 rl show ?thesis by simp
        next
          case False
          then have "n' ! 1 = n2 ! 1" using t1' a len' by (intro nother) auto
          with lok2 a len' show ?thesis by (simp add: links_ok_def)
        qed
      qed
      have root': "0 \<le> n' ! nat lab" using nlab sum0 rl by simp
      from statics_after_update[OF v2 lok2 lok' len' _ _ _ root', of ] rl
      have st': "cache_valid n' c2 \<or> (fst c2 \<noteq> 0 \<and> fst c2 \<noteq> 1 \<and> lab \<noteq> fst c2)" by simp
      from cube_s'[of lab] s' have cs: "n_rows (cube s') = n_rows c \<and> n_cols (cube s') = n_cols c
          \<and> n_slices (cube s') = n_slices c \<and> length (mem (cube s')) = length (mem c)
          \<and> mem (cube s') ! cube_index c i j k = lab
          \<and> (cube_index c i j k \<noteq> 0 \<longrightarrow> mem (cube s') ! 0 = mem c ! 0)" by simp
      have "sweep_inv s'"
        using lok' st' cs len s' ll by (auto simp: sweep_inv_def statics_ok_def n_elem_def)
      moreover have "site_inv (Suc i) j k s'"
        using st' s' cs by (auto simp: site_inv_def cube_index_def)
      ultimately show ?thesis using cs by (simp add: same_shape_def c_def)
    qed
  qed
qed

lemma label_site_range:
  "label_site i j k s = ret s' \<Longrightarrow>
     i < n_rows (cube s) \<and> j < n_cols (cube s) \<and> k < n_slices (cube s)"
  using label_site_ret[of i j k s s'] by (auto simp: cube_at_ret)

lemma cube_index_nonzero:
  assumes "i < n_rows c" "j < n_cols c" "k < n_slices c" "i \<noteq> 0 \<or> j \<noteq> 0 \<or> k \<noteq> 0"
  shows "cube_index c i j k \<noteq> 0"
  using assms by (auto simp: cube_index_def)

lemma transform_zeros:
  assumes t: "transform (replicate m 0) n c = ret (ps, n', c')"
    and lok: "links_ok n" and sok: "statics_ok n c"
  shows "ps = replicate m 0" "m \<noteq> 0 \<Longrightarrow> cache_valid n' c'"
proof -
  have f: "\<forall>q < length (replicate m (0::int)). follow_links n (replicate m 0 ! q) = ret (ps ! q)"
   and v: "m \<noteq> 0 \<longrightarrow> cache_valid n' c'"
  proof -
    show "\<forall>q < length (replicate m (0::int)). follow_links n (replicate m 0 ! q) = ret (ps ! q)"
    proof (cases "cache_valid n c")
      case True
      with transform_valid[OF t] show ?thesis by simp
    next
      case False
      show ?thesis
      proof (cases m)
        case 0
        then show ?thesis by simp
      next
        case (Suc m')
        with False sok have "replicate m (0::int) \<noteq> []" "hd (replicate m (0::int)) \<noteq> fst c"
          by (auto simp: statics_ok_def)
        from transform_first_miss(2)[OF t this] show ?thesis .
      qed
    qed
    show "m \<noteq> 0 \<longrightarrow> cache_valid n' c'"
    proof (cases "cache_valid n c")
      case True
      with transform_valid[OF t] show ?thesis by simp
    next
      case False
      show ?thesis
      proof
        assume "m \<noteq> 0"
        with False sok have "replicate m (0::int) \<noteq> []" "hd (replicate m (0::int)) \<noteq> fst c"
          by (auto simp: statics_ok_def)
        from transform_first_miss(1)[OF t this] show "cache_valid n' c'" .
      qed
    qed
  qed
  have len: "length ps = m" using transform_kept[OF t] by simp
  show "ps = replicate m 0"
  proof (rule nth_equalityI)
    show "length ps = length (replicate m (0::int))" using len by simp
  next
    fix q assume "q < length ps"
    with f len have "follow_links n 0 = ret (ps ! q)" by simp
    from follow_links_0[OF lok this] \<open>q < length ps\<close> len show "ps ! q = replicate m 0 ! q" by simp
  qed
  show "m \<noteq> 0 \<Longrightarrow> cache_valid n' c'" using v by simp
qed

lemma label_site_first:
  assumes run: "label_site 0 0 0 s = ret s'" and inv: "sweep_inv s"
    and ll0: "largest_label s = 0"
  shows "first_ok s'"
proof -
  from label_site_ret[OF run] obtain flag where fl: "cube_at (cube s) 0 0 0 = ret flag"
    and rest: "if flag = 0 then s' = s
           else \<exists>nnl n1 c1 nnl' n2 c2.
                  PreviousNeighbours 0 0 0 (cube s) (links s) (statics s) = ret (nnl, n1, c1)
                  \<and> transform nnl n1 c1 = ret (nnl', n2, c2)
                  \<and> assign_label 0 0 0 s nnl' n2 c2 = ret s'"
    by blast
  from fl have rng: "0 < n_rows (cube s)" "0 < n_cols (cube s)" "0 < n_slices (cube s)"
    and flag: "flag = mem (cube s) ! 0"
    by (simp_all add: cube_at_ret cube_index_def)
  from inv have lok: "links_ok (links s)" and sok: "statics_ok (links s) (statics s)"
    and len: "length (mem (cube s)) = n_elem (cube s)"
    by (simp_all add: sweep_inv_def)
  have pos: "0 < length (mem (cube s))" using len rng by (simp add: n_elem_def)
  show ?thesis
  proof (cases "flag = 0")
    case True
    with rest flag show ?thesis by (simp add: first_ok_def)
  next
    case False
    with rest obtain nnl n1 c1 nnl' n2 c2 where
      pn: "PreviousNeighbours 0 0 0 (cube s) (links s) (statics s) = ret (nnl, n1, c1)"
      and tr: "transform nnl n1 c1 = ret (nnl', n2, c2)"
      and body: "assign_label 0 0 0 s nnl' n2 c2 = ret s'"
      by auto
    from pn obtain labels where rd: "read_labels (cube s) 0 (previous_sites (cube s) 0 0 0) = ret labels"
      and t0: "transform labels (links s) (statics s) = ret (nnl, n1, c1)"
      by (auto simp: PreviousNeighbours_def bind_comp_eq_ret)
    from read_labels_outside[OF rd previous_sites_facts(3)]
    have labels: "labels = replicate 13 0" by (simp add: previous_sites_facts)
    from transform_zeros[OF t0[unfolded labels] lok sok]
    have nnl: "nnl = replicate 13 0" and v1: "cache_valid n1 c1" by simp_all
    have lok1: "links_ok n1" using lok transform_kept[OF t0] links_ok_kept by blast
    have sok1: "statics_ok n1 c1" using v1 by (simp add: statics_ok_def)
    from transform_zeros(1)[OF tr[unfolded nnl] lok1 sok1]
    have nnl': "nnl' = replicate 13 0" .
    have "sort (remdups (filter (\<lambda>x. x \<noteq> 0) nnl')) = []"
      unfolding nnl' by simp
    with assign_label_ret[OF body] ll0
    have "cube s' = cube_set (cube s) 0 0 0 1" by simp
    with pos show ?thesis by (simp add: first_ok_def cube_set_def cube_index_def)
  qed
qed

lemma shape_trans: "same_shape s s1 \<Longrightarrow> same_shape s1 s2 \<Longrightarrow> same_shape s s2"
  by (simp add: same_shape_def)

lemma rows_inv:
  "for_each [a..<b] (\<lambda>i. label_site i j k) s = ret s' \<Longrightarrow> sweep_inv s \<Longrightarrow> site_inv a j k s \<Longrightarrow>
     first_ok s \<Longrightarrow> a \<noteq> 0 \<or> j \<noteq> 0 \<or> k \<noteq> 0 \<Longrightarrow>
     sweep_inv s' \<and> same_shape s s' \<and> first_ok s'"
proof (induction "b - a" arbitrary: a s)
  case 0
  then show ?case by (simp add: same_shape_def)
next
  case (Suc d)
  then have ab: "a < b" by simp
  then have up: "[a..<b] = a # [Suc a..<b]" by (simp add: upt_conv_Cons)
  from Suc.prems(1) obtain s1 where
    l: "label_site a j k s = ret s1"
    and r: "for_each [Suc a..<b] (\<lambda>i. label_site i j k) s1 = ret s'"
    unfolding up by (auto simp: bind_comp_eq_ret)
  from label_site_step[OF l Suc.prems(2) Suc.prems(3)] have
    i1: "sweep_inv s1" and j1: "site_inv (Suc a) j k s1" and sh: "same_shape s s1"
    and m0: "cube_index (cube s) a j k \<noteq> 0 \<longrightarrow> mem (cube s1) ! 0 = mem (cube s) ! 0"
    by simp_all
  from label_site_range[OF l] Suc.prems(5) have "cube_index (cube s) a j k \<noteq> 0"
    by (intro cube_index_nonzero) auto
  with m0 Suc.prems(4) have f1: "first_ok s1" by (simp add: first_ok_def)
  have d: "d = b - Suc a" using Suc.hyps(2) by simp
  from Suc.hyps(1)[OF d r i1 j1 f1] sh show ?case by (auto intro: shape_trans)
qed

lemma cols_inv:
  "for_each cols (\<lambda>j. sweep_rows [0..<r] j k) s = ret s' \<Longrightarrow> sweep_inv s \<Longrightarrow> first_ok s \<Longrightarrow>
     k \<noteq> 0 \<or> 0 \<notin> set cols \<Longrightarrow>
     sweep_inv s' \<and> same_shape s s' \<and> first_ok s'"
proof (induction cols arbitrary: s)
  case Nil
  then show ?case by (simp add: same_shape_def)
next
  case (Cons j cols)
  from Cons.prems(1) obtain s1 where
    l: "for_each [0..<r] (\<lambda>i. label_site i j k) s = ret s1"
    and r: "for_each cols (\<lambda>j. sweep_rows [0..<r] j k) s1 = ret s'"
    by (auto simp: bind_comp_eq_ret sweep_rows_def)
  have site: "site_inv 0 j k s" using Cons.prems(2)
    by (intro statics_ok_site_inv) (simp add: sweep_inv_def)
  from Cons.prems(4) have "0 \<noteq> (0::nat) \<or> j \<noteq> 0 \<or> k \<noteq> 0" by auto
  from rows_inv[OF l Cons.prems(2) site Cons.prems(3) this] have
    1: "sweep_inv s1" "same_shape s s1" "first_ok s1" by simp_all
  from Cons.prems(4) have "k \<noteq> 0 \<or> 0 \<notin> set cols" by auto
  from Cons.IH[OF r 1(1) 1(3) this] 1(2) show ?case by (auto intro: shape_trans)
qed

lemma slices_inv:
  "for_each ks (\<lambda>k s'. sweep_cols [0..<n_cols (cube s')] k s') s = ret s' \<Longrightarrow> sweep_inv s \<Longrightarrow>
     first_ok s \<Longrightarrow> 0 \<notin> set ks \<Longrightarrow>
     sweep_inv s' \<and> same_shape s s' \<and> first_ok s'"
proof (induction ks arbitrary: s)
  case Nil
  then show ?case by (simp add: same_shape_def)
next
  case (Cons k ks)
  from Cons.prems(1) obtain s1 where
    l: "sweep_cols [0..<n_cols (cube s)] k s = ret s1"
    and r: "for_each ks (\<lambda>k s'. sweep_cols [0..<n_cols (cube s')] k s') s1 = ret s'"
    by (auto simp: bind_comp_eq_ret)
  from Cons.prems(4) have "k \<noteq> 0 \<or> 0 \<notin> set [0..<n_cols (cube s)]" by auto
  from cols_inv[OF l[unfolded sweep_cols_def] Cons.prems(2) Cons.prems(3) this] have
    1: "sweep_inv s1" "same_shape s s1" "first_ok s1" by simp_all
  from Cons.prems(4) have "0 \<notin> set ks" by auto
  from Cons.IH[OF r 1(1) 1(3) this] 1(2) show ?case by (auto intro: shape_trans)
qed

lemma sweep_establishes:
  assumes run: "sweep s = ret s'" and inv: "sweep_inv s" and ll0: "largest_label s = 0"
    and ne: "mem (cube s) \<noteq> []"
  shows "sweep_inv s' \<and> same_shape s s' \<and> first_ok s'"
proof -
  from inv have "length (mem (cube s)) = n_elem (cube s)" by (simp add: sweep_inv_def)
  with ne have "0 < n_elem (cube s)" by (metis length_greater_0_conv)
  then have pos: "0 < n_rows (cube s)" "0 < n_cols (cube s)" "0 < n_slices (cube s)"
    by (simp_all add: n_elem_def)
  have ups: "[0..<n_slices (cube s)] = 0 # [1..<n_slices (cube s)]"
    and upc: "[0..<n_cols (cube s)] = 0 # [1..<n_cols (cube s)]"
    and upr: "[0..<n_rows (cube s)] = 0 # [1..<n_rows (cube s)]"
    using pos by (simp_all add: upt_conv_Cons)
  from run obtain sa where
    a: "sweep_cols [0..<n_cols (cube s)] 0 s = ret sa"
    and ra: "for_each [1..<n_slices (cube s)] (\<lambda>k s'. sweep_cols [0..<n_cols (cube s')] k s') sa = ret s'"
    unfolding sweep_def ups by (auto simp: bind_comp_eq_ret)
  from a obtain sb where
    b: "sweep_rows [0..<n_rows (cube s)] 0 0 s = ret sb"
    and rb: "for_each [1..<n_cols (cube s)] (\<lambda>j. sweep_rows [0..<n_rows (cube s)] j 0) sb = ret sa"
    unfolding sweep_cols_def upc by (auto simp: bind_comp_eq_ret)
  from b obtain sc where
    c: "label_site 0 0 0 s = ret sc"
    and rc: "for_each [1..<n_rows (cube s)] (\<lambda>i. label_site i 0 0) sc = ret sb"
    unfolding sweep_rows_def upr by (auto simp: bind_comp_eq_ret)
  have site: "site_inv 0 0 0 s" using inv
    by (intro statics_ok_site_inv) (simp add: sweep_inv_def)
  from label_site_step[OF c inv site] have
    c1: "sweep_inv sc" "site_inv (Suc 0) 0 0 sc" "same_shape s sc" by simp_all
  note c2 = label_site_first[OF c inv ll0]
  from rows_inv[OF rc[unfolded One_nat_def] c1(1) c1(2) c2] have
    b1: "sweep_inv sb" "same_shape sc sb" "first_ok sb" by simp_all
  from cols_inv[OF rb[unfolded One_nat_def] b1(1) b1(3)] have
    a1: "sweep_inv sa" "same_shape sb sa" "first_ok sa" by simp_all
  from slices_inv[OF ra[unfolded One_nat_def] a1(1) a1(3)] have
    z: "sweep_inv s'" "same_shape sa s'" "first_ok s'" by simp_all
  from c1(3) b1(2) a1(2) z show ?thesis by (auto intro: shape_trans)
qed

lemma for_each_rel:
  assumes step: "\<And>x s s'. x \<in> set xs \<Longrightarrow> body x s = ret s' \<Longrightarrow> R s s'"
    and refl: "\<And>s. R s s" and trans: "\<And>a b c. R a b \<Longrightarrow> R b c \<Longrightarrow> R a c"
  shows "for_each xs body s = ret s' \<Longrightarrow> R s s'"
  using step
proof (induction xs arbitrary: s)
  case Nil
  then show ?case using refl by simp
next
  case (Cons x xs)
  from Cons.prems(1) obtain s1 where a: "body x s = ret s1" and b: "for_each xs body s1 = ret s'"
    by (auto simp: bind_comp_eq_ret)
  have "R s s1" using Cons.prems(2)[of x s s1] a by simp
  moreover have "R s1 s'"
  proof (rule Cons.IH[OF b])
    fix y t t' assume "y \<in> set xs" "body y t = ret t'"
    then show "R t t'" using Cons.prems(2)[of y t t'] by simp
  qed
  ultimately show ?case using trans by blast
qed

lemma label_site_shape: "label_site i j k s = ret s' \<Longrightarrow> same_shape s s'"
proof -
  assume run: "label_site i j k s = ret s'"
  from label_site_ret[OF run] obtain flag where
    "cube_at (cube s) i j k = ret flag" and
    rest: "if flag = 0 then s' = s
           else \<exists>nnl n1 c1 nnl' n2 c2.
                  PreviousNeighbours i j k (cube s) (links s) (statics s) = ret (nnl, n1, c1)
                  \<and> transform nnl n1 c1 = ret (nnl', n2, c2)
                  \<and> assign_label i j k s nnl' n2 c2 = ret s'"
    by blast
  show ?thesis
  proof (cases "flag = 0")
    case True
    with rest show ?thesis by (simp add: same_shape_def)
  next
    case False
    with rest obtain nnl' n2 c2 where body: "assign_label i j k s nnl' n2 c2 = ret s'" by auto
    from assign_label_ret[OF body] show ?thesis
      by (auto simp: same_shape_def cube_set_def split: list.splits)
  qed
qed

lemma same_shape_refl: "same_shape s s"
  by (simp add: same_shape_def)

lemma sweep_rows_shape: "sweep_rows rows j k s = ret s' \<Longrightarrow> same_shape s s'"
  unfolding sweep_rows_def
  by (rule for_each_rel[where R = same_shape and body = "\<lambda>i. label_site i j k"])
     (auto intro: label_site_shape same_shape_refl shape_trans)

lemma sweep_cols_shape: "sweep_cols cols k s = ret s' \<Longrightarrow> same_shape s s'"
  unfolding sweep_cols_def
  by (rule for_each_rel[where R = same_shape
        and body = "\<lambda>j. sweep_rows [0..<n_rows (cube s)] j k"])
     (auto intro: sweep_rows_shape same_shape_refl shape_trans)

lemma sweep_shape: "sweep s = ret s' \<Longrightarrow> same_shape s s'"
  unfolding sweep_def
  by (rule for_each_rel[where R = same_shape
        and body = "\<lambda>k s'. sweep_cols [0..<n_cols (cube s')] k s'"])
     (auto intro: sweep_cols_shape same_shape_refl shape_trans)

lemma HKCheck_ret:
  assumes "HKCheck ndebug s = ret s2"
  shows "\<exists>labels n' c'. transform (mem (cube s)) (links s) (statics s) = ret (labels, n', c')
           \<and> s2 = s\<lparr>cube := (cube s)\<lparr>mem := labels\<rparr>, links := n', statics := c'\<rparr>"
  using assms unfolding HKCheck_def
  by (auto simp: bind_comp_eq_ret Let_def split: prod.splits if_splits)

lemma count_infinite_ret:
  "count_infinite s xs acc = ret m \<Longrightarrow> m = acc + length (takeWhile (percolates s) xs)"
proof (induction xs arbitrary: acc)
  case Nil
  then show ?case by simp
next
  case (Cons x xs)
  show ?case
  proof (cases "percolates s x")
    case True
    with Cons.prems have "count_infinite s xs (acc + 1) = ret m" by (simp split: if_splits)
    from Cons.IH[OF this] True show ?thesis by simp
  next
    case False
    with Cons.prems show ?thesis by (simp split: if_splits)
  qed
qed

lemma initial_state_inv:
  "length (mem l) = n_elem l \<Longrightarrow> sweep_inv (initial_state junk_min junk_max l)"
  by (simp add: sweep_inv_def initial_state_def links_ok_def statics_ok_def)

lemma EnhancedHoshenKopelman_ret:
  assumes "EnhancedHoshenKopelman sort_index ndebug junk_min junk_max l = ret out"
  shows "\<exists>s1 s2 m s3. sweep (initial_state junk_min junk_max l) = ret s1
           \<and> HKCheck ndebug s1 = ret s2
           \<and> count_infinite s2 (sort_index (links s2)) 0 = ret m
           \<and> eliminate s2 (take m (sort_index (links s2))) = ret s3 \<and> out = cube s3"
proof -
  from assms obtain s1 where 1: "sweep (initial_state junk_min junk_max l) = ret s1"
    and r1: "bind_comp (HKCheck ndebug s1) (\<lambda>s2.
       (let idx = sort_index (links s2) in
        bind_comp (count_infinite s2 idx 0) (\<lambda>infinite_clusters.
        bind_comp (eliminate s2 (take infinite_clusters idx)) (\<lambda>s3.
          ret (cube s3))))) = ret out"
    unfolding EnhancedHoshenKopelman_def bind_comp_eq_ret by blast
  from r1 obtain s2 where 2: "HKCheck ndebug s1 = ret s2"
    and r2: "bind_comp (count_infinite s2 (sort_index (links s2)) 0) (\<lambda>infinite_clusters.
        bind_comp (eliminate s2 (take infinite_clusters (sort_index (links s2)))) (\<lambda>s3.
          ret (cube s3))) = ret out"
    unfolding bind_comp_eq_ret Let_def by blast
  from r2 obtain m where 3: "count_infinite s2 (sort_index (links s2)) 0 = ret m"
    and r3: "bind_comp (eliminate s2 (take m (sort_index (links s2)))) (\<lambda>s3.
          ret (cube s3)) = ret out"
    unfolding bind_comp_eq_ret by blast
  from r3 obtain s3 where 4: "eliminate s2 (take m (sort_index (links s2))) = ret s3"
    and "out = cube s3"
    unfolding bind_comp_eq_ret by auto
  with 1 2 3 show ?thesis by blast
qed


text \<open>
  C2.  When \<^verbatim>\<open>EnhancedHoshenKopelman\<close> returns on a cube whose memory has as many elements as
  its dimensions say, the output has the same number of elements, and the output value of
  every site is 1 exactly when the proper label of the site (the end of the alias chain of
  the label that the sweep gave it) is one of the labels counted by the search for infinite
  clusters: the leading labels, in the order of descending size, whose bounding box fills
  the cube.  This holds for every order that \<^verbatim>\<open>sort_index\<close> may return, for every initial
  content of the bounding boxes, and with assertions compiled in or out.
\<close>

theorem EnhancedHoshenKopelman_output:
  assumes run: "EnhancedHoshenKopelman sort_index ndebug junk_min junk_max l = ret out"
    and wf: "length (mem l) = n_elem l"
  shows "\<exists>s1 s2. sweep (initial_state junk_min junk_max l) = ret s1
           \<and> HKCheck ndebug s1 = ret s2
           \<and> length (mem out) = length (mem l)
           \<and> (\<forall>v < length (mem l). \<exists>p.
                 follow_links (links s1) (mem (cube s1) ! v) = ret p
                 \<and> mem out ! v =
                     (if p \<in> set (takeWhile (percolates s2) (sort_index (links s2)))
                      then 1 else 0))"
proof -
  let ?s0 = "initial_state junk_min junk_max l"
  from EnhancedHoshenKopelman_ret[OF run] obtain s1 s2 m s3 where
    sw: "sweep ?s0 = ret s1" and hk: "HKCheck ndebug s1 = ret s2"
    and cnt: "count_infinite s2 (sort_index (links s2)) 0 = ret m"
    and el: "eliminate s2 (take m (sort_index (links s2))) = ret s3" and out: "out = cube s3"
    by blast
  let ?idx = "sort_index (links s2)"
  from count_infinite_ret[OF cnt] have tk: "take m ?idx = takeWhile (percolates s2) ?idx"
    using takeWhile_eq_take[of "percolates s2" ?idx] by simp
  from HKCheck_ret[OF hk] obtain mem2 n2 c2 where
    t2: "transform (mem (cube s1)) (links s1) (statics s1) = ret (mem2, n2, c2)"
    and s2: "s2 = s1\<lparr>cube := (cube s1)\<lparr>mem := mem2\<rparr>, links := n2, statics := c2\<rparr>"
    by blast
  from el s2 obtain ps3 n3 c3 where
    t3: "transform mem2 n2 c2 = ret (ps3, n3, c3)"
    and mem3: "mem (cube s3) = map (\<lambda>p. if p \<in> set (take m ?idx) then 1 else 0) ps3"
    by (auto simp: eliminate_def bind_comp_eq_ret split: prod.splits)
  note k2 = transform_kept[OF t2]
  note k3 = transform_kept[OF t3]
  from sweep_shape[OF sw] have len1: "length (mem (cube s1)) = length (mem l)"
    by (simp add: same_shape_def initial_state_def)
  have len_out: "length (mem out) = length (mem l)"
    using out mem3 k2 k3 len1 by simp
  have main: "\<exists>p. follow_links (links s1) (mem (cube s1) ! v) = ret p
                 \<and> mem out ! v = (if p \<in> set (takeWhile (percolates s2) ?idx) then 1 else 0)"
    if v: "v < length (mem l)" for v
  proof -
    from v have ne: "mem (cube ?s0) \<noteq> []" by (auto simp: initial_state_def)
    have ll0: "largest_label ?s0 = 0" by (simp add: initial_state_def)
    from sweep_establishes[OF sw initial_state_inv[OF wf] ll0 ne] have
      inv1: "sweep_inv s1" and f1: "first_ok s1" by simp_all
    from inv1 have sok: "statics_ok (links s1) (statics s1)" by (simp add: sweep_inv_def)
    have ne1: "mem (cube s1) \<noteq> []" using len1 v by auto
    have a: "cache_valid n2 c2 \<and>
             (\<forall>q < length (mem (cube s1)). follow_links (links s1) (mem (cube s1) ! q) = ret (mem2 ! q))"
    proof (cases "cache_valid (links s1) (statics s1)")
      case True
      from transform_valid[OF t2 True] show ?thesis .
    next
      case False
      with sok have "fst (statics s1) \<noteq> 0" "fst (statics s1) \<noteq> 1" by (auto simp: statics_ok_def)
      moreover have "hd (mem (cube s1)) = mem (cube s1) ! 0" using ne1 by (simp add: hd_conv_nth)
      ultimately have "hd (mem (cube s1)) \<noteq> fst (statics s1)"
        using f1 by (auto simp: first_ok_def)
      from transform_first_miss[OF t2 ne1 this] show ?thesis by simp
    qed
    from v len1 have v1: "v < length (mem (cube s1))" by simp
    with a have p: "follow_links (links s1) (mem (cube s1) ! v) = ret (mem2 ! v)" by simp
    from v1 k2 have v2: "v < length mem2" by simp
    from transform_valid[OF t3] a v2 have "follow_links n2 (mem2 ! v) = ret (ps3 ! v)" by simp
    with k2 have "follow_links (links s1) (mem2 ! v) = ret (ps3 ! v)" by (simp add: same_ends_def)
    moreover have "follow_links (links s1) (mem2 ! v) = ret (mem2 ! v)"
      using follow_links_root[OF p] by (simp add: follow_links_fix)
    ultimately have e: "ps3 ! v = mem2 ! v" by simp
    have "v < length ps3" using v2 k3 by simp
    then have "mem out ! v = (if ps3 ! v \<in> set (take m ?idx) then 1 else 0)"
      using out mem3 by simp
    with e tk p show ?thesis by auto
  qed
  from sw hk len_out main show ?thesis by blast
qed

theorem EnhancedHoshenKopelman_output_witness:
  "EnhancedHoshenKopelman sort_index_descend False (\<lambda>x. [0, 0, 0]) (\<lambda>x. [0, 0, 0])
     \<lparr>n_rows = 3, n_cols = 3, n_slices = 2,
       mem = [0, 0, 1, 1, 1, 0, 0, 0, 0,
              0, 0, 0, 0, 0, 0, 0, 1, 0]\<rparr>
   = ret \<lparr>n_rows = 3, n_cols = 3, n_slices = 2,
           mem = [0, 0, 1, 1, 1, 0, 0, 0, 0,
                  0, 0, 0, 0, 0, 0, 0, 1, 0]\<rparr>
   \<and> (\<exists>s1 s2 p.
         sweep (initial_state (\<lambda>x. [0, 0, 0]) (\<lambda>x. [0, 0, 0])
                  \<lparr>n_rows = 3, n_cols = 3, n_slices = 2,
                    mem = [0, 0, 1, 1, 1, 0, 0, 0, 0,
                           0, 0, 0, 0, 0, 0, 0, 1, 0]\<rparr>) = ret s1
         \<and> HKCheck False s1 = ret s2
         \<and> follow_links (links s1) (mem (cube s1) ! 3) = ret p
         \<and> p \<in> set (takeWhile (percolates s2) (sort_index_descend (links s2))))"
proof -
  let ?l = "\<lparr>n_rows = 3, n_cols = 3, n_slices = 2,
             mem = [0, 0, 1, 1, 1, 0, 0, 0, 0,
                    0, 0, 0, 0, 0, 0, 0, 1, 0 :: int]\<rparr>"
  have run: "EnhancedHoshenKopelman sort_index_descend False (\<lambda>x. [0, 0, 0]) (\<lambda>x. [0, 0, 0]) ?l
               = ret ?l"
    by code_simp
  have wf: "length (mem ?l) = n_elem ?l" by (simp add: n_elem_def)
  from EnhancedHoshenKopelman_output[OF run wf] obtain s1 s2 where
    a: "sweep (initial_state (\<lambda>x. [0, 0, 0]) (\<lambda>x. [0, 0, 0]) ?l) = ret s1"
       "HKCheck False s1 = ret s2"
    and b: "\<forall>v < length (mem ?l). \<exists>p.
                 follow_links (links s1) (mem (cube s1) ! v) = ret p
                 \<and> mem ?l ! v =
                     (if p \<in> set (takeWhile (percolates s2) (sort_index_descend (links s2)))
                      then 1 else 0)"
    by blast
  have "3 < length (mem ?l)" by simp
  with b obtain p where
    p: "follow_links (links s1) (mem (cube s1) ! 3) = ret p"
       "mem ?l ! 3 = (if p \<in> set (takeWhile (percolates s2) (sort_index_descend (links s2)))
                      then 1 else 0)"
    by blast
  have "mem ?l ! 3 = 1" by simp
  with p(2) have "p \<in> set (takeWhile (percolates s2) (sort_index_descend (links s2)))"
    by (simp split: if_splits)
  with run a p(1) show ?thesis by blast
qed


text \<open>
  C2, a percolating cluster that is dropped.  The cube has 4 rows, 4 columns and 4 slices.
  The diagonal sites (0,0,0), (1,1,1), (2,2,2), (3,3,3) form the cluster with label 1, whose
  bounding box (0,0,0)-(3,3,3) has 64 sites, the number of elements of the cube.  The sites
  (0,3,0), (0,3,1), (0,3,2), (0,3,3), (0,2,3) form a second cluster, which has five sites
  and does not percolate.  The search visits the larger cluster first and stops there, so
  the output is 0 at every site, also at the sites of the percolating cluster.
\<close>

theorem EnhancedHoshenKopelman_counterexample:
  "EnhancedHoshenKopelman sort_index_descend False (\<lambda>x. [0, 0, 0]) (\<lambda>x. [0, 0, 0])
     \<lparr>n_rows = 4, n_cols = 4, n_slices = 4,
       mem = map (\<lambda>p. if p \<in> set [0, 21, 42, 63, 12, 28, 44, 60, 56] then 1 else 0) [0..<64]\<rparr>
   = ret \<lparr>n_rows = 4, n_cols = 4, n_slices = 4, mem = replicate 64 0\<rparr>
   \<and> bind_comp (sweep (initial_state (\<lambda>x. [0, 0, 0]) (\<lambda>x. [0, 0, 0])
         \<lparr>n_rows = 4, n_cols = 4, n_slices = 4,
           mem = map (\<lambda>p. if p \<in> set [0, 21, 42, 63, 12, 28, 44, 60, 56] then 1 else 0)
                   [0..<64]\<rparr>))
       (\<lambda>s1. bind_comp (HKCheck False s1)
          (\<lambda>s2. ret (follow_links (links s1) (mem (cube s1) ! 0), percolates s2 1,
                       bbox_min s2 ! 1, bbox_max s2 ! 1, n_elem (cube s2))))
     = ret (ret 1, True, [0, 0, 0], [3, 3, 3], 64)"
  by code_simp


section \<open>Properties of the centerline router\<close>

































text \<open>
  The traversal of \<^verbatim>\<open>Dijkstra::ExecuteGradient\<close> with the handle-based heap.  A source
  that is not a vertex of the graph leaves the object as it is and is reported as not
  executed.  For a source in the graph the queue holds one key after \<^verbatim>\<open>Initialise\<close>,
  and the first \<^verbatim>\<open>Remove\<close> of the loop is the removal of the sole element of a heap,
  which reads \<^verbatim>\<open>elements_[0]\<close> of an empty vector.
\<close>

lemma Insert_empty_heap:
  assumes "Insert IsLess maximum_key empty_heap key = Inr (handle, q)"
  shows "wf_heap q" and "length (elements q) = 1"
  using assms
  by (auto simp: Insert_def DecreasePriority_def deref_def empty_heap_def HeapSize_def Let_def
        move_up.simps wf_heap_def split: if_splits)

lemma Dijkstra_ExecuteGradient_not_in_graph:
  "graph_has D source = Inr False \<Longrightarrow>
     Dijkstra_ExecuteGradient D IsLess maximum_key source alg = ret (False, alg)"
  by (simp add: Dijkstra_ExecuteGradient_def ret_def)

lemma Dijkstra_ExecuteGradient_in_graph:
  assumes "graph_has D source = Inr True"
  shows "\<exists>e. Dijkstra_ExecuteGradient D IsLess maximum_key source alg = throw e"
    and "Initialise D IsLess maximum_key source alg = Inr st \<Longrightarrow>
           Dijkstra_ExecuteGradient D IsLess maximum_key source alg = throw UndefinedBehaviour"
proof -
  have u: "traversal_loop D IsLess st = Some (Inl UndefinedBehaviour)"
    if i: "Initialise D IsLess maximum_key source alg = Inr st" for st
  proof -
    from i obtain handle where
      ins: "Insert IsLess maximum_key empty_heap (source_key D source) = Inr (handle, fst st)"
      by (auto simp: Initialise_def split: sum.splits)
    note q = Insert_empty_heap[OF ins]
    from q(2) have ne: "\<not> IsEmpty (fst st)" by (auto simp: IsEmpty_def)
    from Remove_singleton[OF q] have "Remove IsLess (fst st) = Inl UndefinedBehaviour" .
    with ne show ?thesis by (subst traversal_loop.simps) simp
  qed
  show "Initialise D IsLess maximum_key source alg = Inr st \<Longrightarrow>
           Dijkstra_ExecuteGradient D IsLess maximum_key source alg = throw UndefinedBehaviour"
    using assms u by (simp add: Dijkstra_ExecuteGradient_def throw_def)
  show "\<exists>e. Dijkstra_ExecuteGradient D IsLess maximum_key source alg = throw e"
    using assms u
    by (cases "Initialise D IsLess maximum_key source alg")
       (simp_all add: Dijkstra_ExecuteGradient_def throw_def)
qed

lemma bind_comp_throw: "bind_comp (throw e) f = throw e"
  by (simp add: bind_comp_def throw_def)

lemma ComputeForSources_Dijkstra:
  assumes "source_points = pre @ s # post" and "\<forall>v \<in> set pre. graph_has D v = Inr False"
    and "graph_has D s = Inr True"
  shows "\<exists>e. ComputeForSources
                \<lparr>ExecuteGradient = Dijkstra_ExecuteGradient D IsLess maximum_key,
                 GetResult = result, GetEndCandidatesList = candidates\<rparr>
                stat valid source_points end_points alg = throw e"
proof -
  let ?A = "\<lparr>ExecuteGradient = Dijkstra_ExecuteGradient D IsLess maximum_key,
             GetResult = result, GetEndCandidatesList = candidates\<rparr>"
  have "\<exists>e. sources_loop ?A stat valid end_points (pre @ s # post) alg cs = throw e" for cs
    using assms(2)
  proof (induction pre)
    case Nil
    from Dijkstra_ExecuteGradient_in_graph(1)[OF assms(3), of IsLess maximum_key alg]
    obtain e where "Dijkstra_ExecuteGradient D IsLess maximum_key s alg = throw e" by blast
    then show ?case by (auto simp: ExecuteSingleComputation_def bind_comp_throw)
  next
    case (Cons v pre)
    then have "Dijkstra_ExecuteGradient D IsLess maximum_key v alg = ret (False, alg)"
      by (simp add: Dijkstra_ExecuteGradient_not_in_graph)
    with Cons show ?case by (auto simp: ExecuteSingleComputation_def bind_comp_ret)
  qed
  then obtain e where
    "sources_loop ?A stat valid end_points (pre @ s # post) alg
       \<lparr>paths = [], statistics = [], used_nodes = {}, branch_nodes = {}\<rparr> = throw e"
    by blast
  then show ?thesis by (auto simp: ComputeForSources_def assms(1) bind_comp_throw)
qed


section \<open>Properties of the skeletonizer\<close>

lemma bind_fail_Inr:
  "bind_fail m f = Inr y \<longleftrightarrow> (\<exists>x. m = Inr x \<and> f x = Inr y)"
  by (cases m) (auto simp: bind_fail_def)

lemma sint_word_of_int_32:
  "- 2147483648 \<le> d \<Longrightarrow> d \<le> 2147483647 \<Longrightarrow> sint (word_of_int d :: 32 word) = d"
  by (simp add: sint_sbintrunc' signed_take_bit_int_eq_self)

lemma axis_distance_Inr:
  assumes "axis_distance origin oa nb i = Inr d"
  shows "i < length (displacements oa)"
    and "d = sint (displacements oa ! i) + \<bar>uint (GetCoordinate nb i) - uint (GetCoordinate origin i)\<bar>"
    and "d \<le> 2147483647" and "d * d \<le> 2147483647"
    and "sint (word_of_int d :: 32 word) = d"
proof -
  from assms show 1: "i < length (displacements oa)"
    by (auto simp: axis_distance_def split: if_splits)
  from assms 1 show 2: "d = sint (displacements oa ! i) + \<bar>uint (GetCoordinate nb i) - uint (GetCoordinate origin i)\<bar>"
    and 3: "d \<le> 2147483647" and 4: "d * d \<le> 2147483647"
    by (auto simp: axis_distance_def Let_def split: if_splits)
  have "- 2147483648 \<le> sint (displacements oa ! i)"
    using sint_ge[of "displacements oa ! i"] by simp
  with 2 have "- 2147483648 \<le> d" by linarith
  with 3 show "sint (word_of_int d :: 32 word) = d" by (simp add: sint_word_of_int_32)
qed

lemma axis_distance_default:
  assumes "axis_distance origin oa nb i = Inr d"
  shows "displacements oa ! i \<noteq> 2147483647"
proof
  assume e: "displacements oa ! i = 2147483647"
  note a = axis_distance_Inr[OF assms]
  have "sint (2147483647 :: 32 word) = 2147483647" by simp
  with a(2) e have "2147483647 \<le> d" by simp
  then have "2147483647 * 2147483647 \<le> d * d" by (intro mult_mono) simp_all
  with a(4) show False by simp
qed

lemma ReadAnnotation_mem: "ReadAnnotation anns p = Inr a \<Longrightarrow> (p, a) \<in> set anns"
  by (auto simp: ReadAnnotation_def split: option.splits dest: map_of_SomeD)

lemma annotations_okD:
  "annotations_ok img anns \<Longrightarrow> (p, a) \<in> set anns \<Longrightarrow>
     untouched_annotation img p a \<or> proper_annotation img p a"
  by (auto simp: annotations_ok_def)

lemma ModifyAnnotation_ok:
  assumes "ModifyAnnotation anns p a = Inr anns'" "annotations_ok img anns"
    and "untouched_annotation img p a \<or> proper_annotation img p a"
  shows "annotations_ok img anns'"
proof -
  from assms(1) have eq: "anns' = map (\<lambda>e. if fst e = p then (p, a) else e) anns"
    by (auto simp: ModifyAnnotation_def split: if_splits)
  show ?thesis
    unfolding annotations_ok_def eq
  proof
    fix e assume "e \<in> set (map (\<lambda>e. if fst e = p then (p, a) else e) anns)"
    then have "e \<in> (\<lambda>e. if fst e = p then (p, a) else e) ` set anns" by simp
    then obtain e0 where e0: "e0 \<in> set anns" and e: "e = (if fst e0 = p then (p, a) else e0)"
      by blast
    from assms(2) e0 have "untouched_annotation img (fst e0) (snd e0)
         \<or> proper_annotation img (fst e0) (snd e0)" by (simp add: annotations_ok_def)
    with e assms(3) show "untouched_annotation img (fst e) (snd e)
         \<or> proper_annotation img (fst e) (snd e)" by (cases "fst e0 = p") simp_all
  qed
qed

lemma AddPointAnnotation_ok:
  assumes "AddPointAnnotation anns p a = Inr anns'" "annotations_ok img anns"
    and "untouched_annotation img p a \<or> proper_annotation img p a"
  shows "annotations_ok img anns'"
  using assms by (auto simp: AddPointAnnotation_def annotations_ok_def split: if_splits)

lemma proper_annotation_cong:
  "displacements b = displacements a \<Longrightarrow> distance b = distance a \<Longrightarrow> point b = point a \<Longrightarrow>
     proper_annotation img p b = proper_annotation img p a"
  by (simp add: proper_annotation_def squared_displacements_def)

lemma untouched_annotation_cong:
  "displacements b = displacements a \<Longrightarrow>
     untouched_annotation img p b = untouched_annotation img p a"
  by (simp add: untouched_annotation_def)

lemma less_3_cases: "i < (3::nat) \<Longrightarrow> i = 0 \<or> i = 1 \<or> i = 2"
  by arith

lemma relax_proper:
  assumes oa_ok: "untouched_annotation img origin oa \<or> proper_annotation img origin oa"
    and upd: "UpdatePointPathCost origin oa nb na = Inr a1"
  shows "proper_annotation img nb (a1\<lparr>point := point oa\<rparr>)"
proof -
  from upd obtain d0 d1 d2 where
    d0: "axis_distance origin oa nb 0 = Inr d0" and d1: "axis_distance origin oa nb 1 = Inr d1"
    and d2: "axis_distance origin oa nb 2 = Inr d2"
    and a1: "a1 = na\<lparr>displacements := [word_of_int d0, word_of_int d1, word_of_int d2],
                     distance := word_of_int (d0 * d0) + word_of_int (d1 * d1) + word_of_int (d2 * d2)\<rparr>"
    by (auto simp: UpdatePointPathCost_def bind_fail_Inr split: if_splits)
  note A0 = axis_distance_Inr[OF d0] and A1 = axis_distance_Inr[OF d1] and A2 = axis_distance_Inr[OF d2]
  from axis_distance_default[OF d0] have "displacements oa \<noteq> [2147483647, 2147483647, 2147483647]"
    by auto
  with oa_ok have po: "proper_annotation img origin oa" by (auto simp: untouched_annotation_def)
  then have root: "IsContourPoint img (point oa)"
    and bnd: "\<And>i. i < 3 \<Longrightarrow> \<bar>uint (GetCoordinate origin i) - uint (GetCoordinate (point oa) i)\<bar>
                    \<le> sint (displacements oa ! i)"
    by (simp_all add: proper_annotation_def)
  have sq: "squared_displacements (a1\<lparr>point := point oa\<rparr>) = d0 * d0 + d1 * d1 + d2 * d2"
    using A0(5) A1(5) A2(5) by (simp add: a1 squared_displacements_def power2_eq_square)
  have dist: "distance (a1\<lparr>point := point oa\<rparr>) = word_of_int (d0 * d0 + d1 * d1 + d2 * d2)"
    by (simp add: a1)
  have b: "\<bar>uint (GetCoordinate nb i) - uint (GetCoordinate (point oa) i)\<bar>
             \<le> sint (displacements (a1\<lparr>point := point oa\<rparr>) ! i)
           \<and> (sint (displacements (a1\<lparr>point := point oa\<rparr>) ! i))\<^sup>2 \<le> 2147483647" if "i < 3" for i
  proof -
    have tri: "\<bar>uint (GetCoordinate nb i) - uint (GetCoordinate (point oa) i)\<bar>
          \<le> \<bar>uint (GetCoordinate nb i) - uint (GetCoordinate origin i)\<bar>
            + \<bar>uint (GetCoordinate origin i) - uint (GetCoordinate (point oa) i)\<bar>" by linarith
    from less_3_cases[OF that] show ?thesis
    proof (elim disjE)
      assume i: "i = 0"
      with tri bnd[of 0] A0(2) A0(4) A0(5) show ?thesis by (simp add: a1 power2_eq_square)
    next
      assume i: "i = 1"
      with tri bnd[of 1] A1(2) A1(4) A1(5) show ?thesis by (simp add: a1 power2_eq_square)
    next
      assume i: "i = 2"
      with tri bnd[of 2] A2(2) A2(4) A2(5) show ?thesis by (simp add: a1 power2_eq_square)
    qed
  qed
  show ?thesis
    unfolding proper_annotation_def
    using sq dist root b by (simp add: a1)
qed

lemma PropagateLabelToNeighbour_ok:
  assumes run: "PropagateLabelToNeighbour img origin oa nb s = Inr s'"
    and ok: "annotations_ok img (annotations s)"
    and oa_ok: "untouched_annotation img origin oa \<or> proper_annotation img origin oa"
  shows "annotations_ok img (annotations s')"
proof (cases "IsObjectPoint img nb")
  case False
  with run ok show ?thesis by (simp add: PropagateLabelToNeighbour_def)
next
  case True
  with run obtain annotation where
    cur: "GetCurrentAnnotation s nb = Inr annotation"
    and r1: "(if status annotation = removed then Inr s
          else
            bind_fail (GetConcatenatedPathCost origin oa nb) (\<lambda>d.
              if d < distance annotation then
                (let old_key = (distance annotation, tag annotation, nb) in
                 bind_fail (UpdatePointPathCost origin oa nb annotation)
                   (\<lambda>annotation1.
                   (let (key, s1) = GetKey s d nb;
                        annotation2 = annotation1
                          \<lparr>contour_label := contour_label oa,
                           pixel_label := pixel_label oa,
                           point := point oa,
                           tag := fst (snd key)\<rparr>
                    in if status annotation2 \<noteq> inserted then
                         bind_fail (BinaryHeap_Insert (queue s1) key) (\<lambda>q.
                         bind_fail (AddPointAnnotation (annotations s1) nb
                                      (annotation2\<lparr>status := inserted\<rparr>)) (\<lambda>anns.
                           Inr (s1\<lparr>queue := q, annotations := anns\<rparr>)))
                       else
                         bind_fail (IncreasePriority_key (queue s1) old_key key) (\<lambda>q.
                         bind_fail (ModifyAnnotation (annotations s1) nb annotation2)
                           (\<lambda>anns.
                           Inr (s1\<lparr>queue := q, annotations := anns\<rparr>))))))
              else Inr s)) = Inr s'"
    by (auto simp: PropagateLabelToNeighbour_def bind_fail_Inr)
  show ?thesis
  proof (cases "status annotation = removed")
    case True
    with r1 ok show ?thesis by simp
  next
    case False
    with r1 obtain d where
      r2: "(if d < distance annotation then
                (let old_key = (distance annotation, tag annotation, nb) in
                 bind_fail (UpdatePointPathCost origin oa nb annotation)
                   (\<lambda>annotation1.
                   (let (key, s1) = GetKey s d nb;
                        annotation2 = annotation1
                          \<lparr>contour_label := contour_label oa,
                           pixel_label := pixel_label oa,
                           point := point oa,
                           tag := fst (snd key)\<rparr>
                    in if status annotation2 \<noteq> inserted then
                         bind_fail (BinaryHeap_Insert (queue s1) key) (\<lambda>q.
                         bind_fail (AddPointAnnotation (annotations s1) nb
                                      (annotation2\<lparr>status := inserted\<rparr>)) (\<lambda>anns.
                           Inr (s1\<lparr>queue := q, annotations := anns\<rparr>)))
                       else
                         bind_fail (IncreasePriority_key (queue s1) old_key key) (\<lambda>q.
                         bind_fail (ModifyAnnotation (annotations s1) nb annotation2)
                           (\<lambda>anns.
                           Inr (s1\<lparr>queue := q, annotations := anns\<rparr>))))))
              else Inr s) = Inr s'"
      by (auto simp: bind_fail_Inr)
    show ?thesis
    proof (cases "d < distance annotation")
      case False
      with r2 ok show ?thesis by simp
    next
      case True
      with r2 have "\<exists>a1. UpdatePointPathCost origin oa nb annotation = Inr a1 \<and>
         (let (key, s1) = GetKey s d nb;
                        annotation2 = a1
                          \<lparr>contour_label := contour_label oa,
                           pixel_label := pixel_label oa,
                           point := point oa,
                           tag := fst (snd key)\<rparr>
                    in if status annotation2 \<noteq> inserted then
                         bind_fail (BinaryHeap_Insert (queue s1) key) (\<lambda>q.
                         bind_fail (AddPointAnnotation (annotations s1) nb
                                      (annotation2\<lparr>status := inserted\<rparr>)) (\<lambda>anns.
                           Inr (s1\<lparr>queue := q, annotations := anns\<rparr>)))
                       else
                         bind_fail (IncreasePriority_key (queue s1)
                                      (distance annotation, tag annotation, nb) key) (\<lambda>q.
                         bind_fail (ModifyAnnotation (annotations s1) nb annotation2)
                           (\<lambda>anns.
                           Inr (s1\<lparr>queue := q, annotations := anns\<rparr>)))) = Inr s'"
        by (simp add: bind_fail_Inr Let_def)
      then obtain a1 where
        upd: "UpdatePointPathCost origin oa nb annotation = Inr a1"
        and r3: "(let (key, s1) = GetKey s d nb;
                        annotation2 = a1
                          \<lparr>contour_label := contour_label oa,
                           pixel_label := pixel_label oa,
                           point := point oa,
                           tag := fst (snd key)\<rparr>
                    in if status annotation2 \<noteq> inserted then
                         bind_fail (BinaryHeap_Insert (queue s1) key) (\<lambda>q.
                         bind_fail (AddPointAnnotation (annotations s1) nb
                                      (annotation2\<lparr>status := inserted\<rparr>)) (\<lambda>anns.
                           Inr (s1\<lparr>queue := q, annotations := anns\<rparr>)))
                       else
                         bind_fail (IncreasePriority_key (queue s1)
                                      (distance annotation, tag annotation, nb) key) (\<lambda>q.
                         bind_fail (ModifyAnnotation (annotations s1) nb annotation2)
                           (\<lambda>anns.
                           Inr (s1\<lparr>queue := q, annotations := anns\<rparr>)))) = Inr s'"
        by blast
      let ?a2 = "a1\<lparr>contour_label := contour_label oa, pixel_label := pixel_label oa,
                     point := point oa, tag := counter_value s\<rparr>"
      have p2: "proper_annotation img nb ?a2"
        using relax_proper[OF oa_ok upd]
        by (simp add: proper_annotation_cong[of ?a2 "a1\<lparr>point := point oa\<rparr>"])
      then have p3: "proper_annotation img nb (?a2\<lparr>status := inserted\<rparr>)"
        by (simp add: proper_annotation_cong[of "?a2\<lparr>status := inserted\<rparr>" ?a2])
      show ?thesis
      proof (cases "status ?a2 \<noteq> inserted")
        case True
        with r3 have "\<exists>anns.
          AddPointAnnotation (annotations s) nb (?a2\<lparr>status := inserted\<rparr>) = Inr anns
          \<and> annotations s' = anns"
          by (auto simp: bind_fail_Inr Let_def GetKey_def)
        then obtain anns where
          "AddPointAnnotation (annotations s) nb (?a2\<lparr>status := inserted\<rparr>) = Inr anns"
          and "annotations s' = anns" by blast
        with AddPointAnnotation_ok[of "annotations s" nb _ anns img] ok p3 show ?thesis by simp
      next
        case False
        with r3 have "\<exists>anns. ModifyAnnotation (annotations s) nb ?a2 = Inr anns
          \<and> annotations s' = anns"
          by (auto simp: bind_fail_Inr Let_def GetKey_def)
        then obtain anns where
          "ModifyAnnotation (annotations s) nb ?a2 = Inr anns"
          and "annotations s' = anns" by blast
        with ModifyAnnotation_ok[of "annotations s" nb _ anns img] ok p2 show ?thesis by simp
      qed
    qed
  qed
qed

lemma PropagateLabelToNeighbours_ok:
  "PropagateLabelToNeighbours img origin oa nbs s = Inr s' \<Longrightarrow>
     annotations_ok img (annotations s) \<Longrightarrow>
     untouched_annotation img origin oa \<or> proper_annotation img origin oa \<Longrightarrow>
     annotations_ok img (annotations s')"
proof (induction nbs arbitrary: s)
  case Nil
  then show ?case by simp
next
  case (Cons nb nbs)
  from Cons.prems(1) obtain s1 where
    a: "PropagateLabelToNeighbour img origin oa nb s = Inr s1"
    and b: "PropagateLabelToNeighbours img origin oa nbs s1 = Inr s'"
    by (auto split: sum.splits)
  from PropagateLabelToNeighbour_ok[OF a Cons.prems(2) Cons.prems(3)]
  show ?case by (rule Cons.IH[OF b _ Cons.prems(3)])
qed

lemma ExecuteIftIterations_ok:
  "ExecuteIftIterations img n s = Inr s' \<Longrightarrow> annotations_ok img (annotations s) \<Longrightarrow>
     annotations_ok img (annotations s')"
proof (induction n arbitrary: s)
  case 0
  then show ?case by simp
next
  case (Suc n)
  show ?case
  proof (cases "HasElements (queue s)")
    case False
    with Suc.prems show ?thesis by simp
  next
    case True
    with Suc.prems(1) obtain key q a anns s1 where
      rm: "BinaryHeap_Remove (queue s) = Inr (key, q)"
      and rd: "ReadAnnotation (annotations s) (snd (snd key)) = Inr a"
      and md: "ModifyAnnotation (annotations s) (snd (snd key)) (a\<lparr>status := removed\<rparr>) = Inr anns"
      and pr: "PropagateLabelToNeighboursIfApplicable img (snd (snd key))
                 (a\<lparr>status := removed\<rparr>) (s\<lparr>queue := q, annotations := anns\<rparr>) = Inr s1"
      and rest: "ExecuteIftIterations img n s1 = Inr s'"
      by (auto split: sum.splits prod.splits)
    let ?p = "snd (snd key)"
    from annotations_okD[OF Suc.prems(2) ReadAnnotation_mem[OF rd]]
    have a_ok: "untouched_annotation img ?p a \<or> proper_annotation img ?p a" .
    then have r_ok: "untouched_annotation img ?p (a\<lparr>status := removed\<rparr>)
                     \<or> proper_annotation img ?p (a\<lparr>status := removed\<rparr>)"
      by (simp add: proper_annotation_cong[of "a\<lparr>status := removed\<rparr>" a]
                    untouched_annotation_cong[of "a\<lparr>status := removed\<rparr>" a])
    from ModifyAnnotation_ok[OF md Suc.prems(2) r_ok] have "annotations_ok img anns" .
    then have "annotations_ok img (annotations (s\<lparr>queue := q, annotations := anns\<rparr>))" by simp
    from PropagateLabelToNeighbours_ok[OF pr[unfolded PropagateLabelToNeighboursIfApplicable_def] this r_ok]
    have "annotations_ok img (annotations s1)" .
    from Suc.IH[OF rest this] show ?thesis .
  qed
qed

lemma contour_not_object: "IsContourPoint img p \<Longrightarrow> \<not> IsObjectPoint img p"
  by (auto simp: IsContourPoint_def IsObjectPoint_def split: if_splits)

lemma untouched_BuildAnnotation:
  "IsContourPoint img p \<Longrightarrow> untouched_annotation img p (BuildAnnotation cl pl)"
  by (simp add: untouched_annotation_def BuildAnnotation_def default_Annotation_def
                contour_not_object)

lemma annotations_ok_Cons:
  "annotations_ok img ((p, a) # anns) =
     ((untouched_annotation img p a \<or> proper_annotation img p a) \<and> annotations_ok img anns)"
  by (simp add: annotations_ok_def)

lemma BuildContourFromPoint_ok_aux:
  "BuildContourFromPoint img cl st pl hb anns labeled = Some r \<Longrightarrow>
     annotations_ok img anns \<and> (\<forall>p \<in> set labeled. IsContourPoint img p) \<longrightarrow>
     annotations_ok img (fst (snd (snd r))) \<and> (\<forall>p \<in> set (snd (snd (snd r))). IsContourPoint img p)"
proof (erule BuildContourFromPoint.raw_induct[rotated], goal_cases)
  case (1 walk img cl st pl hb anns labeled r)
  show ?case
  proof (cases st)
    case Nil
    with 1(2) show ?thesis by auto
  next
    case (Cons current_point rest)
    show ?thesis
    proof (cases "IsContourPoint img current_point
             \<and> fst (TryAddAnnotation anns current_point (BuildAnnotation cl pl))")
      case True
      with 1(2) Cons have
        rec: "walk img cl (rest @ filter (IsContourPoint img) (GetNeighbours current_point))
                (pl + 1) True (snd (TryAddAnnotation anns current_point (BuildAnnotation cl pl)))
                (labeled @ [current_point]) = Some r"
        by simp
      from True have s: "snd (TryAddAnnotation anns current_point (BuildAnnotation cl pl))
                      = (current_point, BuildAnnotation cl pl) # anns"
        by (simp add: TryAddAnnotation_def split: if_splits)
      from True have c: "IsContourPoint img current_point" by simp
      show ?thesis
      proof
        assume a: "annotations_ok img anns \<and> (\<forall>p \<in> set labeled. IsContourPoint img p)"
        with c have "annotations_ok img ((current_point, BuildAnnotation cl pl) # anns)
            \<and> (\<forall>p \<in> set (labeled @ [current_point]). IsContourPoint img p)"
          by (simp add: annotations_ok_Cons untouched_BuildAnnotation)
        with 1(1)[OF rec] s
        show "annotations_ok img (fst (snd (snd r)))
                \<and> (\<forall>p \<in> set (snd (snd (snd r))). IsContourPoint img p)" by simp
      qed
    next
      case False
      with 1(2) Cons have rec: "walk img cl rest pl hb anns labeled = Some r" by auto
      from 1(1)[OF rec] show ?thesis .
    qed
  qed
qed

lemma BuildContourFromPoint_ok:
  assumes "BuildContourFromPoint img cl st pl hb anns labeled = Some (pl', hb', anns', labeled')"
    and "annotations_ok img anns" and "\<forall>p \<in> set labeled. IsContourPoint img p"
  shows "annotations_ok img anns'" and "\<forall>p \<in> set labeled'. IsContourPoint img p"
  using BuildContourFromPoint_ok_aux[OF assms(1)] assms(2,3) by simp_all

lemma ComputeContours_loop_ok:
  "ComputeContours_loop img ps cl anns cc = Some (anns', cc') \<Longrightarrow>
     annotations_ok img anns \<Longrightarrow> \<forall>p \<in> set (labeled_points cc). IsContourPoint img p \<Longrightarrow>
     annotations_ok img anns' \<and> (\<forall>p \<in> set (labeled_points cc'). IsContourPoint img p)"
proof (induction ps arbitrary: cl anns cc)
  case Nil
  then show ?case by simp
next
  case (Cons p ps)
  show ?case
  proof (cases "IsContourPoint img p")
    case False
    with Cons.prems(1) have "ComputeContours_loop img ps cl anns cc = Some (anns', cc')" by simp
    from Cons.IH[OF this Cons.prems(2,3)] show ?thesis .
  next
    case True
    with Cons.prems(1) obtain ml hb anns1 labeled1 where
      b: "BuildContourFromPoint img cl [p] 1 False anns (labeled_points cc)
            = Some (ml, hb, anns1, labeled1)"
      by (auto split: option.splits)
    note ok1 = BuildContourFromPoint_ok[OF b Cons.prems(2,3)]
    show ?thesis
    proof (cases hb)
      case True
      let ?cc = "cc\<lparr>labeled_points := labeled1,
                     pixels_per_contour := pixels_per_contour cc @ [ml],
                     maximum_pixel_label :=
                       (if ml > maximum_pixel_label cc then ml
                        else maximum_pixel_label cc)\<rparr>"
      from Cons.prems(1) \<open>IsContourPoint img p\<close> b True
      have r: "ComputeContours_loop img ps (cl + 1) anns1 ?cc = Some (anns', cc')" by simp
      have "\<forall>p \<in> set (labeled_points ?cc). IsContourPoint img p" using ok1(2) by simp
      from Cons.IH[OF r ok1(1) this] show ?thesis .
    next
      case False
      let ?cc = "cc\<lparr>labeled_points := labeled1\<rparr>"
      from Cons.prems(1) \<open>IsContourPoint img p\<close> b False
      have r: "ComputeContours_loop img ps cl anns1 ?cc = Some (anns', cc')" by simp
      have "\<forall>p \<in> set (labeled_points ?cc). IsContourPoint img p" using ok1(2) by simp
      from Cons.IH[OF r ok1(1) this] show ?thesis .
    qed
  qed
qed

lemma ComputeContours_ok:
  assumes "ComputeContours img [] = Some (anns, cc)"
  shows "annotations_ok img anns" and "\<forall>p \<in> set (labeled_points cc). IsContourPoint img p"
  using ComputeContours_loop_ok[OF assms[unfolded ComputeContours_def]]
  by (simp_all add: annotations_ok_def)

lemma seed_proper:
  "IsContourPoint img p \<Longrightarrow>
     proper_annotation img p
       (a\<lparr>status := inserted, displacements := [0, 0, 0], distance := 0, tag := c, point := p\<rparr>)"
  by (auto simp: proper_annotation_def squared_displacements_def dest: less_3_cases)

lemma InitialiseAnnotationOfSeedPoint_ok:
  assumes "InitialiseAnnotationOfSeedPoint s p c = Inr s'" "annotations_ok img (annotations s)"
    "IsContourPoint img p"
  shows "annotations_ok img (annotations s')"
proof -
  from assms(1) obtain a anns where
    m: "ModifyAnnotation (annotations s) p
          (a\<lparr>status := inserted, displacements := [0, 0, 0], distance := 0,
             tag := c, point := p\<rparr>) = Inr anns"
    and s': "s' = s\<lparr>annotations := anns\<rparr>"
    by (auto simp: InitialiseAnnotationOfSeedPoint_def bind_fail_Inr)
  from ModifyAnnotation_ok[OF m assms(2)] seed_proper[OF assms(3)] s' show ?thesis by simp
qed

lemma enqueue_seed_points_ok:
  "enqueue_seed_points ps s = Inr s' \<Longrightarrow> annotations_ok img (annotations s) \<Longrightarrow>
     \<forall>p \<in> set ps. IsContourPoint img p \<Longrightarrow> annotations_ok img (annotations s')"
proof (induction ps arbitrary: s)
  case Nil
  then show ?case by simp
next
  case (Cons p ps)
  from Cons.prems(1) obtain q s2 where
    i: "InitialiseAnnotationOfSeedPoint (s\<lparr>counter_value := counter_value s + 1, queue := q\<rparr>) p
          (counter_value s) = Inr s2"
    and r: "enqueue_seed_points ps s2 = Inr s'"
    by (auto simp: GetKey_def Let_def split: sum.splits)
  have "annotations_ok img (annotations (s\<lparr>counter_value := counter_value s + 1, queue := q\<rparr>))"
    using Cons.prems(2) by simp
  from InitialiseAnnotationOfSeedPoint_ok[OF i this] Cons.prems(3)
  have "annotations_ok img (annotations s2)" by simp
  from Cons.IH[OF r this] Cons.prems(3) show ?case by simp
qed

lemma ComputeSkeleton_ok:
  assumes "ComputeSkeleton img n = Some (Inr s)"
  shows "annotations_ok img (annotations s)"
proof -
  from assms obtain anns cc s0 where
    c: "ComputeContours img [] = Some (anns, cc)"
    and e: "enqueue_seed_points (labeled_points cc)
              (new_Skeletonizer\<lparr>annotations := anns, contour_calculator := cc\<rparr>) = Inr s0"
    and x: "ExecuteIftIterations img n s0 = Inr s"
    by (auto simp: ComputeSkeleton_def InitialiseAndEnqueueSeedPoints_def new_Skeletonizer_def
             split: option.splits sum.splits)
  have "annotations_ok img (annotations (new_Skeletonizer\<lparr>annotations := anns, contour_calculator := cc\<rparr>))"
    using ComputeContours_ok(1)[OF c] by simp
  from enqueue_seed_points_ok[OF e this ComputeContours_ok(2)[OF c]]
  have "annotations_ok img (annotations s0)" .
  from ExecuteIftIterations_ok[OF x this] show ?thesis .
qed

lemma object_annotation_proper:
  assumes "ComputeSkeleton img n = Some (Inr s)" "ReadAnnotation (annotations s) v = Inr a"
    "IsObjectPoint img v"
  shows "proper_annotation img v a"
  using annotations_okD[OF ComputeSkeleton_ok[OF assms(1)] ReadAnnotation_mem[OF assms(2)]] assms(3)
  by (auto simp: untouched_annotation_def)

lemma proper_dominates:
  assumes "proper_annotation img v a"
  shows "squared_euclidean_distance v (point a) \<le> squared_displacements a"
proof -
  have sq: "x\<^sup>2 \<le> y\<^sup>2" if "\<bar>x\<bar> \<le> y" for x y :: int
    using that by (metis abs_le_square_iff abs_of_nonneg abs_ge_zero order_trans)
  from assms have l: "length (displacements a) = 3"
    and b: "\<And>i. i < 3 \<Longrightarrow> \<bar>uint (GetCoordinate v i) - uint (GetCoordinate (point a) i)\<bar>
                    \<le> sint (displacements a ! i)"
    by (simp_all add: proper_annotation_def)
  from sq[OF b[of 0]] sq[OF b[of 1]] sq[OF b[of 2]] show ?thesis
    by (simp add: squared_euclidean_distance_def squared_displacements_def)
qed



lemma proper_annotation_object:
  assumes "annotations_ok img anns" "ReadAnnotation anns v = Inr a" "IsObjectPoint img v"
  shows "proper_annotation img v a"
  using annotations_okD[OF assms(1) ReadAnnotation_mem[OF assms(2)]] assms(3)
  by (auto simp: untouched_annotation_def)

lemma uint_word_of_int_32: "uint (word_of_int x :: 32 word) = x mod 2 ^ 32"
  by (simp add: uint_word_of_int)

lemma proper_distance:
  assumes "proper_annotation img v a"
  shows "uint (distance a) = squared_displacements a mod 2 ^ 32"
proof -
  from assms have "distance a = word_of_int (squared_displacements a)"
    unfolding proper_annotation_def by blast
  then show ?thesis by (simp only: uint_word_of_int_32)
qed



text \<open>
  C1 (as amended).  After ComputeSkeleton, with the loop ended or stopped after \<open>n\<close>
  iterations, the annotation of a pore voxel \<open>v\<close> names a root that is a contour voxel,
  and the sum of the squared displacements, which the distance holds modulo \<open>2^32\<close>, is at
  least the squared Euclidean distance from \<open>v\<close> to that root, hence at least the minimum
  over all contour voxels.  The displacements add up the steps of the path along which
  the root was propagated, axis by axis in absolute value, so the sum can exceed the
  minimum.
\<close>

theorem annotation_distance_upper_bound:
  assumes "ComputeSkeleton img n = Some (Inr s)"
    and "ReadAnnotation (annotations s) v = Inr a" and "IsObjectPoint img v"
  shows "IsContourPoint img (point a)
    \<and> squared_euclidean_distance v (point a) \<le> squared_displacements a
    \<and> uint (distance a) = squared_displacements a mod 2 ^ 32"
proof -
  from proper_annotation_object[OF ComputeSkeleton_ok[OF assms(1)] assms(2,3)]
  have p: "proper_annotation img v a" .
  from p have "IsContourPoint img (point a)"
    unfolding proper_annotation_def by blast
  with proper_dominates[OF p] proper_distance[OF p] show ?thesis by blast
qed

theorem annotation_distance_upper_bound_witness:
  "\<exists>s a.
     ComputeSkeleton
       \<lparr>points = (\<lambda>x y z. if (x, y, z) = (0, 0, 0) then 1 else 0), sizes = [3, 3, 1]\<rparr> 20
       = Some (Inr s)
     \<and> \<not> HasElements (queue s)
     \<and> ReadAnnotation (annotations s) (2, 2, 0) = Inr a
     \<and> IsObjectPoint
           \<lparr>points = (\<lambda>x y z. if (x, y, z) = (0, 0, 0) then 1 else 0), sizes = [3, 3, 1]\<rparr>
           (2, 2, 0)
     \<and> point a = (0, 0, 0) \<and> displacements a = [2, 2, 0]
     \<and> IsContourPoint
           \<lparr>points = (\<lambda>x y z. if (x, y, z) = (0, 0, 0) then 1 else 0), sizes = [3, 3, 1]\<rparr>
           (point a)
     \<and> squared_euclidean_distance (2, 2, 0) (point a) \<le> squared_displacements a
     \<and> uint (distance a) = squared_displacements a mod 2 ^ 32
     \<and> uint (distance a) = 8"
proof -
  let ?img = "\<lparr>points = (\<lambda>x y z. if (x, y, z) = (0, 0, 0) then 1 else 0), sizes = [3, 3, 1]\<rparr>"
  have "(case ComputeSkeleton ?img 20 of
           Some (Inr s) \<Rightarrow>
             \<not> HasElements (queue s) \<and>
             (case ReadAnnotation (annotations s) (2, 2, 0) of
                Inr a \<Rightarrow> point a = (0, 0, 0) \<and> displacements a = [2, 2, 0]
              | Inl e \<Rightarrow> False)
         | _ \<Rightarrow> False)"
    by code_simp
  then obtain s a where s: "ComputeSkeleton ?img 20 = Some (Inr s)"
    and q: "\<not> HasElements (queue s)"
    and a: "ReadAnnotation (annotations s) (2, 2, 0) = Inr a"
    and d: "point a = (0, 0, 0)" "displacements a = [2, 2, 0]"
    by (auto split: option.splits sum.splits)
  have o: "IsObjectPoint ?img (2, 2, 0)" by code_simp
  from annotation_distance_upper_bound[OF s a o]
  have e: "IsContourPoint ?img (point a)"
    "squared_euclidean_distance (2, 2, 0) (point a) \<le> squared_displacements a"
    "uint (distance a) = squared_displacements a mod 2 ^ 32" by blast+
  from e(3) have "uint (distance a) = 8" by (simp add: d squared_displacements_def)
  with s q a o d e show ?thesis by blast
qed

text \<open>
  C1 as stated fails.  In the image of 14 x 8 x 1 voxels whose rock voxels are (1, 2, 0),
  (0, 6, 0) and (2, 0, 0), all three on the contour, the loop ends with the distance 170
  for the pore voxel (13, 7, 0), whose squared Euclidean distance to the contour voxel
  (1, 2, 0) is 169.
\<close>

theorem annotation_distance_not_minimal:
  "\<exists>s a.
     ComputeSkeleton
       \<lparr>points = (\<lambda>x y z. if (x, y, z) \<in> set [(1, 2, 0), (0, 6, 0), (2, 0, 0)] then 1 else 0),
        sizes = [14, 8, 1]\<rparr> 200 = Some (Inr s)
     \<and> \<not> HasElements (queue s)
     \<and> IsObjectPoint
           \<lparr>points = (\<lambda>x y z. if (x, y, z) \<in> set [(1, 2, 0), (0, 6, 0), (2, 0, 0)] then 1 else 0),
            sizes = [14, 8, 1]\<rparr> (13, 7, 0)
     \<and> ReadAnnotation (annotations s) (13, 7, 0) = Inr a
     \<and> distance a = 170
     \<and> IsContourPoint
           \<lparr>points = (\<lambda>x y z. if (x, y, z) \<in> set [(1, 2, 0), (0, 6, 0), (2, 0, 0)] then 1 else 0),
            sizes = [14, 8, 1]\<rparr> (1, 2, 0)
     \<and> squared_euclidean_distance (13, 7, 0) (1, 2, 0) = 169"
proof -
  let ?img = "\<lparr>points = (\<lambda>x y z. if (x, y, z) \<in> set [(1, 2, 0), (0, 6, 0), (2, 0, 0)] then 1 else 0),
        sizes = [14, 8, 1]\<rparr>"
  have "(case ComputeSkeleton ?img 200 of
           Some (Inr s) \<Rightarrow>
             \<not> HasElements (queue s) \<and>
             (case ReadAnnotation (annotations s) (13, 7, 0) of
                Inr a \<Rightarrow> distance a = 170
              | Inl e \<Rightarrow> False)
         | _ \<Rightarrow> False)"
    by code_simp
  then obtain s a where "ComputeSkeleton ?img 200 = Some (Inr s)"
    "\<not> HasElements (queue s)" "ReadAnnotation (annotations s) (13, 7, 0) = Inr a"
    "distance a = 170"
    by (auto split: option.splits sum.splits)
  moreover have "IsObjectPoint ?img (13, 7, 0)" by code_simp
  moreover have "IsContourPoint ?img (1, 2, 0)" by code_simp
  moreover have "squared_euclidean_distance (13, 7, 0) (1, 2, 0) = 169" by code_simp
  ultimately show ?thesis by blast
qed

end
